theory Spec2Isabelle
  imports Main "HOL-Library.AList" "HOL-Library.Sublist"
begin

section \<open>Errors, jobs and the dependency graph\<close>

text \<open>
  The exceptions of \<^verbatim>\<open>backend/pipeline/core/orchestrator.py\<close> that the control flow
  depends on. The source raises \<^verbatim>\<open>ValueError\<close> and \<^verbatim>\<open>TypeError\<close> with different
  messages; each message is a constructor of its own, so that the causes stay apart.
  \<open>Raised\<close> is any other exception of class \<^verbatim>\<open>Exception\<close> that a collaborator (a reader,
  a processor, a runner, a writer, the database) raises, with its text. \<open>Interrupt\<close> is
  an exception that is not of class \<^verbatim>\<open>Exception\<close> (\<^verbatim>\<open>KeyboardInterrupt\<close>,
  \<^verbatim>\<open>SystemExit\<close>, \<^verbatim>\<open>GeneratorExit\<close>): a clause \<^verbatim>\<open>except Exception\<close> does not catch it,
  and every handler of the module is of that form.
\<close>

datatype error =
    UnknownDependency string string
  | CircularDependency string
  | CannotDetermineJobType string
  | KeyError string
  | UnknownProcessor string
  | NotADataFrame string
  | NameError string
  | TypeError string
  | Raised string
  | Interrupt string

fun is_Exception :: "error \<Rightarrow> bool" where
  "is_Exception (Interrupt msg) = False"
| "is_Exception e = True"

text \<open>
  \<^verbatim>\<open>class Job\<close>: the fields the scheduling reads or writes. \<open>runner_type\<close> is
  \<^verbatim>\<open>runner_config.get("type", "")\<close>; a new job is \<^verbatim>\<open>pending\<close>.
\<close>

datatype job_status = Pending | Running | Success | Failed | Skipped

record job =
  name :: string
  stage :: string
  runner_type :: string
  depends_on :: "string list"
  status :: job_status

definition Job :: "string \<Rightarrow> string \<Rightarrow> string \<Rightarrow> string list \<Rightarrow> job" where
  "Job nm stg rt deps =
     \<lparr>name = nm, stage = stg, runner_type = rt, depends_on = deps, status = Pending\<rparr>"

text \<open>
  \<^verbatim>\<open>self.jobs = {job.name: job for job in jobs}\<close>: an insertion-ordered dictionary,
  kept as an association list. A later job of the same name replaces the value and keeps
  the position of the key, as a Python dict does.
\<close>

definition jobs_dict :: "job list \<Rightarrow> (string \<times> job) list" where
  "jobs_dict js = foldl (\<lambda>d j. AList.update (name j) j d) [] js"

definition dict_values :: "(string \<times> job) list \<Rightarrow> job list" where
  "dict_values d = map snd d"

definition dict_keys :: "(string \<times> job) list \<Rightarrow> string list" where
  "dict_keys d = map fst d"

text \<open>
  \<^verbatim>\<open>JobDAG._build_graph\<close>: the inner loop over \<^verbatim>\<open>job.depends_on\<close> and the outer
  loop over \<^verbatim>\<open>self.jobs.values()\<close>. The graph is a \<^verbatim>\<open>defaultdict(set)\<close>.
\<close>

fun add_edges ::
  "(string \<times> job) list \<Rightarrow> job \<Rightarrow> string list \<Rightarrow> (string \<Rightarrow> string set)
     \<Rightarrow> error + (string \<Rightarrow> string set)" where
  "add_edges d j [] g = Inr g"
| "add_edges d j (dep # deps) g =
     (if dep \<notin> set (dict_keys d) then Inl (UnknownDependency (name j) dep)
      else add_edges d j deps (g(dep := insert (name j) (g dep))))"

fun build_loop ::
  "(string \<times> job) list \<Rightarrow> job list \<Rightarrow> (string \<Rightarrow> string set)
     \<Rightarrow> error + (string \<Rightarrow> string set)" where
  "build_loop d [] g = Inr g"
| "build_loop d (j # js) g =
     (case add_edges d j (depends_on j) g of
        Inl e \<Rightarrow> Inl e
      | Inr g' \<Rightarrow> build_loop d js g')"

definition build_graph :: "(string \<times> job) list \<Rightarrow> error + (string \<Rightarrow> string set)" where
  "build_graph d = build_loop d (dict_values d) (\<lambda>_. {})"

record job_dag =
  dag_jobs :: "(string \<times> job) list"
  graph :: "string \<Rightarrow> string set"

definition JobDAG :: "job list \<Rightarrow> error + job_dag" where
  "JobDAG js =
     (let d = jobs_dict js in
      case build_graph d of
        Inl e \<Rightarrow> Inl e
      | Inr g \<Rightarrow> Inr \<lparr>dag_jobs = d, graph = g\<rparr>)"

text \<open>
  \<^verbatim>\<open>JobDAG.get_ready_jobs\<close>: the loop with its two \<^verbatim>\<open>continue\<close> statements and
  the accumulator \<^verbatim>\<open>ready\<close>; \<^verbatim>\<open>all(dep in completed for dep in job.depends_on)\<close>
  is \<open>list_all\<close>.
\<close>

fun ready_loop :: "string \<Rightarrow> string set \<Rightarrow> job list \<Rightarrow> job list \<Rightarrow> job list" where
  "ready_loop stg completed [] ready = ready"
| "ready_loop stg completed (j # js) ready =
     (if stage j \<noteq> stg then ready_loop stg completed js ready
      else if status j \<noteq> Pending then ready_loop stg completed js ready
      else (let deps_ready = list_all (\<lambda>dep. dep \<in> completed) (depends_on j) in
            if deps_ready then ready_loop stg completed js (ready @ [j])
            else ready_loop stg completed js ready))"

definition get_ready_jobs :: "(string \<times> job) list \<Rightarrow> string \<Rightarrow> string set \<Rightarrow> job list" where
  "get_ready_jobs d stg completed = ready_loop stg completed (dict_values d) []"

section \<open>Variable expansion\<close>

text \<open>
  A configuration value as \<^verbatim>\<open>_expand\<close> sees it: \<^verbatim>\<open>None\<close>, a string, a mapping, a
  list, a tuple, or any other object (a number, a boolean), which is returned as it is.
  The environment is read through \<^verbatim>\<open>str(env.get(name, ""))\<close> only, so it is kept as a
  map from names to the text that \<^verbatim>\<open>str\<close> gives for the value.
\<close>

datatype 'a config =
    CNone
  | CStr string
  | CMapping "(string \<times> 'a config) list"
  | CList "'a config list"
  | CTuple "'a config list"
  | COther 'a

type_synonym environment = "string \<Rightarrow> string option"

definition env_get :: "environment \<Rightarrow> string \<Rightarrow> string" where
  "env_get env nm = (case env nm of None \<Rightarrow> [] | Some v \<Rightarrow> v)"

definition word_char :: "char \<Rightarrow> bool" where
  "word_char c \<longleftrightarrow> c \<in> set ''ABCDEFGHIJKLMNOPQRSTUVWXYZabcdefghijklmnopqrstuvwxyz0123456789_''"

text \<open>
  A match of the pattern \<^verbatim>\<open>_DOLLAR\<close> and of the pattern \<^verbatim>\<open>_BRACES\<close> at the head of a
  string: the group and the text after the match. Each group is a greedy run that a
  closing brace must follow, so the longest run decides.
\<close>

definition match_dollar :: "string \<Rightarrow> (string \<times> string) option" where
  "match_dollar s =
     (case s of
        c1 # c2 # rest \<Rightarrow>
          if c1 = CHR ''$'' \<and> c2 = CHR ''{'' then
            (let grp = takeWhile (\<lambda>c. c \<noteq> CHR ''}'') rest;
                 after = dropWhile (\<lambda>c. c \<noteq> CHR ''}'') rest
             in if grp \<noteq> [] \<and> after \<noteq> [] then Some (grp, tl after) else None)
          else None
      | _ \<Rightarrow> None)"

definition match_braces :: "string \<Rightarrow> (string \<times> string) option" where
  "match_braces s =
     (case s of
        c1 # rest \<Rightarrow>
          if c1 = CHR ''{'' then
            (let grp = takeWhile word_char rest;
                 after = dropWhile word_char rest
             in if grp \<noteq> [] \<and> (case after of [] \<Rightarrow> False | c # _ \<Rightarrow> c = CHR ''}'') then Some (grp, tl after)
                else None)
          else None
      | _ \<Rightarrow> None)"

lemma length_tl_dropWhile: "length (tl (dropWhile P xs)) \<le> length xs"
  using length_dropWhile_le [of P xs] by simp

lemma match_dollar_shorter: "match_dollar s = Some (g, r) \<Longrightarrow> length r < length s"
  using length_tl_dropWhile [of "\<lambda>c. c \<noteq> CHR ''}''"]
  by (auto simp: match_dollar_def Let_def le_imp_less_Suc less_SucI split: list.splits if_splits)

lemma match_braces_shorter: "match_braces s = Some (g, r) \<Longrightarrow> length r < length s"
  using length_dropWhile_le [of word_char "tl s"]
  by (auto simp: match_braces_def Let_def split: list.splits if_splits)

text \<open>
  \<^verbatim>\<open>pattern.sub(repl, s)\<close>: the matches are taken from left to right and do not
  overlap; a character where no match starts is copied.
\<close>

function dollar_sub :: "(string \<Rightarrow> string) \<Rightarrow> string \<Rightarrow> string" where
  "dollar_sub repl [] = []"
| "dollar_sub repl (c # cs) =
     (case match_dollar (c # cs) of
        Some (grp, rest) \<Rightarrow> repl grp @ dollar_sub repl rest
      | None \<Rightarrow> c # dollar_sub repl cs)"
  by pat_completeness auto
termination
  by (relation "measure (\<lambda>(repl, s). length s)") (auto dest: match_dollar_shorter)

function braces_sub :: "(string \<Rightarrow> string) \<Rightarrow> string \<Rightarrow> string" where
  "braces_sub repl [] = []"
| "braces_sub repl (c # cs) =
     (case match_braces (c # cs) of
        Some (grp, rest) \<Rightarrow> repl grp @ braces_sub repl rest
      | None \<Rightarrow> c # braces_sub repl cs)"
  by pat_completeness auto
termination
  by (relation "measure (\<lambda>(repl, s). length s)") (auto dest: match_braces_shorter)

text \<open>\<^verbatim>\<open>_expand\<close>: the keys of a mapping are kept, only its values are expanded.\<close>

fun expand :: "'a config \<Rightarrow> environment \<Rightarrow> 'a config" where
  "expand CNone env = CNone"
| "expand (CStr s) env = CStr (braces_sub (env_get env) (dollar_sub (env_get env) s))"
| "expand (CMapping kvs) env = CMapping (map (\<lambda>(k, v). (k, expand v env)) kvs)"
| "expand (CList vs) env = CList (map (\<lambda>v. expand v env) vs)"
| "expand (CTuple vs) env = CTuple (map (\<lambda>v. expand v env) vs)"
| "expand (COther x) env = COther x"


text \<open>All string scalars of a configuration value, from left to right.\<close>

fun strings_of :: "'a config \<Rightarrow> string list" where
  "strings_of CNone = []"
| "strings_of (CStr s) = [s]"
| "strings_of (CMapping kvs) = concat (map (\<lambda>(k, v). strings_of v) kvs)"
| "strings_of (CList vs) = concat (map strings_of vs)"
| "strings_of (CTuple vs) = concat (map strings_of vs)"
| "strings_of (COther x) = []"

text \<open>
  What the substitution of one pattern is meant to do, said without the functions above.
  A placeholder starts a text when the text is the opening (\<^verbatim>\<open>${\<close> or \<^verbatim>\<open>{\<close>), a name
  that is not empty and made of the characters of the pattern's group, a closing brace,
  and any rest. \<open>substituted opener name_char env s out\<close>: reading \<open>s\<close> from left to
  right, every placeholder is replaced by \<^verbatim>\<open>env.get(name, "")\<close> and the reading goes on
  after its closing brace; a character that starts no placeholder is kept.
\<close>

definition starts_placeholder :: "string \<Rightarrow> (char \<Rightarrow> bool) \<Rightarrow> string \<Rightarrow> bool" where
  "starts_placeholder opener name_char s \<longleftrightarrow>
     (\<exists>nm rest. nm \<noteq> [] \<and> list_all name_char nm \<and> s = opener @ nm @ ''}'' @ rest)"

inductive substituted ::
  "string \<Rightarrow> (char \<Rightarrow> bool) \<Rightarrow> environment \<Rightarrow> string \<Rightarrow> string \<Rightarrow> bool"
  for opener :: string and name_char :: "char \<Rightarrow> bool" and env :: environment where
  end_of_text: "substituted opener name_char env [] []"
| placeholder:
    "nm \<noteq> [] \<Longrightarrow> list_all name_char nm \<Longrightarrow> substituted opener name_char env rest out \<Longrightarrow>
       substituted opener name_char env (opener @ nm @ ''}'' @ rest) (env_get env nm @ out)"
| other_text:
    "\<not> starts_placeholder opener name_char (c # cs) \<Longrightarrow> substituted opener name_char env cs out \<Longrightarrow>
       substituted opener name_char env (c # cs) (c # out)"


text \<open>
  A text in which neither pattern matches anywhere (\<open>placeholder_free\<close>), and a text that
  stays so whatever is written before and after it (\<open>inert\<close>): an opening brace never
  follows a dollar sign, the character after an opening brace is not a character of a
  name, and the text ends neither in a dollar sign nor in an opening brace.
\<close>

fun placeholder_free :: "string \<Rightarrow> bool" where
  "placeholder_free [] \<longleftrightarrow> True"
| "placeholder_free (c # cs) \<longleftrightarrow>
     match_dollar (c # cs) = None \<and> match_braces (c # cs) = None \<and> placeholder_free cs"

fun inert :: "string \<Rightarrow> bool" where
  "inert [] \<longleftrightarrow> True"
| "inert [c] \<longleftrightarrow> c \<noteq> CHR ''$'' \<and> c \<noteq> CHR ''{''"
| "inert (c # d # cs) \<longleftrightarrow>
     (c = CHR ''$'' \<longrightarrow> d \<noteq> CHR ''{'') \<and> (c = CHR ''{'' \<longrightarrow> \<not> word_char d) \<and> inert (d # cs)"

text \<open>
  A string written as a sequence of segments: literal text, a placeholder with a dollar
  sign and a placeholder without. \<open>render\<close> gives the text, \<open>resolve\<close> the text with
  every placeholder replaced by \<^verbatim>\<open>env.get(name, "")\<close>. A segment is \<open>plain\<close> when it
  cannot run into its neighbours: a literal is inert, a name is not empty and fits its
  pattern, and the value of a name has neither an opening brace nor a dollar sign.
\<close>

datatype segment = Lit string | Dollar string | Brace string

fun render :: "segment \<Rightarrow> string" where
  "render (Lit t) = t"
| "render (Dollar n) = ''${'' @ n @ ''}''"
| "render (Brace n) = ''{'' @ n @ ''}''"

fun resolve :: "environment \<Rightarrow> segment \<Rightarrow> string" where
  "resolve env (Lit t) = t"
| "resolve env (Dollar n) = env_get env n"
| "resolve env (Brace n) = env_get env n"

definition clean_value :: "string \<Rightarrow> bool" where
  "clean_value v \<longleftrightarrow> CHR ''{'' \<notin> set v \<and> CHR ''$'' \<notin> set v"

fun plain_segment :: "environment \<Rightarrow> segment \<Rightarrow> bool" where
  "plain_segment env (Lit t) \<longleftrightarrow> inert t"
| "plain_segment env (Dollar n) \<longleftrightarrow>
     n \<noteq> [] \<and> CHR ''}'' \<notin> set n \<and> clean_value (env_get env n)"
| "plain_segment env (Brace n) \<longleftrightarrow>
     n \<noteq> [] \<and> list_all word_char n \<and> clean_value (env_get env n)"

text \<open>The text of a segment after the first pass (\<^verbatim>\<open>_DOLLAR.sub\<close>).\<close>

fun after_dollar :: "environment \<Rightarrow> segment \<Rightarrow> string" where
  "after_dollar env (Lit t) = t"
| "after_dollar env (Dollar n) = env_get env n"
| "after_dollar env (Brace n) = ''{'' @ n @ ''}''"

text \<open>Concrete environments and configurations for the examples.\<close>

definition env_b :: environment where
  "env_b = map_of [(''B'', ''x'')]"


definition env_home :: environment where
  "env_home = map_of [(''HOME'', ''/root''), (''RUN'', ''7'')]"


definition config_literal :: "nat config" where
  "config_literal = CMapping [(''note'', CList [CStr ''x { y ${HOME}/{RUN}'', COther 3])]"

section \<open>The extract job\<close>

text \<open>
  \<^verbatim>\<open>Table\<close> (a dataclass, so every table object is true in a condition) with its name
  and its data frame; the metadata is only logged. A processor returns a data frame,
  returns something else, raises \<^verbatim>\<open>SkipTable\<close>, or raises another exception (which
  the handler \<^verbatim>\<open>except Exception\<close> logs and raises again, and which passes it by when it
  is not of class \<^verbatim>\<open>Exception\<close>).
\<close>

record 'd table =
  table_name :: string
  df :: 'd






record 'd extract_state =
  job_status :: job_status
  job_output_table :: "string option"
  in_memory_tables :: "string \<Rightarrow> 'd table option"





section \<open>The orchestrator\<close>

lemma ready_loop_filter:
  "ready_loop stg completed js ready =
     ready @ filter (\<lambda>j. stage j = stg \<and> status j = Pending \<and> set (depends_on j) \<subseteq> completed) js"
  by (induction js arbitrary: ready) (auto simp: list_all_iff)

lemma get_ready_jobs_filter:
  "get_ready_jobs d stg completed =
     filter (\<lambda>j. stage j = stg \<and> status j = Pending \<and> set (depends_on j) \<subseteq> completed)
       (dict_values d)"
  by (simp add: get_ready_jobs_def ready_loop_filter)

text \<open>
  The dispatch of the driver: the runner's \<^verbatim>\<open>type\<close> decides; without one, the stage
  name in lower case is searched for the substrings of the source, in the source's order.
  \<^verbatim>\<open>str.lower\<close> is modelled on the ASCII letters.
\<close>

datatype job_kind = ExtractJob | StageJob | TransformJob | LoadJob

definition ascii_lower :: "string \<Rightarrow> string" where
  "ascii_lower s =
     map (\<lambda>c. case map_of (zip ''ABCDEFGHIJKLMNOPQRSTUVWXYZ'' ''abcdefghijklmnopqrstuvwxyz'') c of
                 Some l \<Rightarrow> l | None \<Rightarrow> c) s"

fun contains :: "string \<Rightarrow> string \<Rightarrow> bool" where
  "contains sub [] \<longleftrightarrow> sub = []"
| "contains sub (c # cs) \<longleftrightarrow> prefix sub (c # cs) \<or> contains sub cs"

definition job_kind_of :: "string \<Rightarrow> string \<Rightarrow> error + job_kind" where
  "job_kind_of rt stg =
     (if rt = ''reader'' then Inr ExtractJob
      else if rt = ''stager'' then Inr StageJob
      else if rt = ''transformer'' then Inr TransformJob
      else if rt = ''writer'' then Inr LoadJob
      else (let stage_lower = ascii_lower stg in
            if contains ''extract'' stage_lower then Inr ExtractJob
            else if contains ''stage'' stage_lower \<or> contains ''stag'' stage_lower then Inr StageJob
            else if contains ''transform'' stage_lower then Inr TransformJob
            else if contains ''load'' stage_lower \<or> contains ''export'' stage_lower then Inr LoadJob
            else Inl (CannotDetermineJobType stg)))"

text \<open>
  What happens to connection objects, in order: a connection is opened (by
  \<^verbatim>\<open>db_engine.connect\<close>, or by a collaborator calling \<^verbatim>\<open>duckdb.connect\<close>, as
  \<^verbatim>\<open>runners/dbt_runner.py\<close> and \<^verbatim>\<open>proc/dbt_transform.py\<close> do after their run), it is
  closed by a collaborator calling \<^verbatim>\<open>close\<close> on it (as the same two do before their
  run), or it is closed through \<^verbatim>\<open>db_engine.close\<close>.
\<close>

datatype 'c conn_action = Connected 'c | Closed 'c | EngineClosed 'c

text \<open>
  The state of one run: the \<^verbatim>\<open>Job\<close> objects (the values of \<^verbatim>\<open>dag.jobs\<close>, which are the
  objects of the list \<^verbatim>\<open>jobs\<close>: the job names are the keys of \<^verbatim>\<open>jobs_config\<close>, hence
  distinct), the set \<^verbatim>\<open>completed_jobs\<close>, the connection that the executor holds
  (\<^verbatim>\<open>executor.duckdb_con\<close>), and everything else the executor and its collaborators own
  (\<open>world\<close>: the table cache, the content of the database, the files). \<open>connections\<close> and
  \<open>history\<close> are history variables. To \<open>connections\<close> every opening and closing of a
  connection is appended. To \<open>history\<close> every call of one of the four
  \<^verbatim>\<open>executor.execute_..._job(job)\<close>, every assignment to \<^verbatim>\<open>job.status\<close>, every call of
  \<^verbatim>\<open>completed_jobs.add\<close> and every exception that reaches the \<^verbatim>\<open>except\<close> clause of
  the driver is appended, in order.
\<close>

datatype event =
    Executed string job_kind
  | StatusSet string job_status
  | CompletedAdd string
  | Caught string error

record ('w, 'c) run_state =
  jobs :: "(string \<times> job) list"
  completed_jobs :: "string set"
  world :: 'w
  executor_duckdb_con :: "'c option"
  connections :: "'c conn_action list"
  history :: "event list"

text \<open>\<^verbatim>\<open>job.status = s\<close> for the job object of the given name.\<close>

definition set_status :: "string \<Rightarrow> job_status \<Rightarrow> ('w, 'c) run_state \<Rightarrow> ('w, 'c) run_state" where
  "set_status nm s \<sigma> =
     \<sigma>\<lparr>jobs := map (\<lambda>(k, j). (k, if name j = nm then j\<lparr>status := s\<rparr> else j)) (jobs \<sigma>),
       history := history \<sigma> @ [StatusSet nm s]\<rparr>"

definition add_completed :: "string \<Rightarrow> ('w, 'c) run_state \<Rightarrow> ('w, 'c) run_state" where
  "add_completed nm \<sigma> =
     \<sigma>\<lparr>completed_jobs := insert nm (completed_jobs \<sigma>), history := history \<sigma> @ [CompletedAdd nm]\<rparr>"

definition caught :: "string \<Rightarrow> error \<Rightarrow> ('w, 'c) run_state \<Rightarrow> ('w, 'c) run_state" where
  "caught nm e \<sigma> = \<sigma>\<lparr>history := history \<sigma> @ [Caught nm e]\<rparr>"

definition executed :: "string \<Rightarrow> job_kind \<Rightarrow> ('w, 'c) run_state \<Rightarrow> ('w, 'c) run_state" where
  "executed nm kind \<sigma> = \<sigma>\<lparr>history := history \<sigma> @ [Executed nm kind]\<rparr>"

text \<open>
  What the body of a job does is a parameter (\<open>ex\<close>): given the kind of the job, the job,
  the connection the executor holds and the world, it says whether the body returns or
  raises (\<open>outcome\<close>), what the world is afterwards, which connections the job's
  collaborators opened and closed on the way (\<open>conn_actions\<close>), and what
  \<^verbatim>\<open>ctx.get("duckdb", self.duckdb_con)\<close> is after a runner has run (\<open>ctx_duckdb\<close>; the
  connection it was given, unless the runner put another one into \<^verbatim>\<open>ctx\<close>).
\<close>

record ('w, 'c) effect =
  outcome :: "error option"
  world_after :: 'w
  conn_actions :: "'c conn_action list"
  ctx_duckdb :: "'c option"

type_synonym ('w, 'c) executor = "job_kind \<Rightarrow> job \<Rightarrow> 'c option \<Rightarrow> 'w \<Rightarrow> ('w, 'c) effect"

text \<open>
  Each of \<^verbatim>\<open>execute_extract_job\<close>, \<^verbatim>\<open>execute_stage_job\<close>, \<^verbatim>\<open>execute_transform_job\<close> and
  \<^verbatim>\<open>execute_load_job\<close> sets the status to running on entry and to success on every
  path that returns; its handler \<^verbatim>\<open>except Exception\<close> sets the status to failed and
  raises again, so an exception of another class leaves the status at running. Only
  \<^verbatim>\<open>execute_transform_job\<close> assigns \<^verbatim>\<open>self.duckdb_con\<close>, after its runner has returned
  (\<^verbatim>\<open>self.duckdb_con = ctx.get("duckdb", self.duckdb_con)\<close>).
\<close>

definition execute_job ::
  "('w, 'c) executor \<Rightarrow> job_kind \<Rightarrow> job \<Rightarrow> ('w, 'c) run_state
     \<Rightarrow> error option \<times> ('w, 'c) run_state" where
  "execute_job ex kind j \<sigma> =
     (let \<sigma>1 = set_status (name j) Running (executed (name j) kind \<sigma>);
          eff = ex kind j (executor_duckdb_con \<sigma>1) (world \<sigma>1);
          \<sigma>2 = \<sigma>1\<lparr>world := world_after eff,
                  connections := connections \<sigma>1 @ conn_actions eff\<rparr>
      in case outcome eff of
           None \<Rightarrow>
             (None, set_status (name j) Success
                      (if kind = TransformJob then \<sigma>2\<lparr>executor_duckdb_con := ctx_duckdb eff\<rparr>
                       else \<sigma>2))
         | Some e \<Rightarrow>
             if is_Exception e then (Some e, set_status (name j) Failed \<sigma>2)
             else (Some e, \<sigma>2))"

text \<open>
  The body of the \<^verbatim>\<open>try\<close> in the loop over the ready jobs (\<open>attempt\<close>), and the clause
  \<^verbatim>\<open>except Exception\<close> with the error policy (\<open>run_job\<close>). An exception of another class
  passes the clause by and leaves the loops.
\<close>

definition attempt ::
  "('w, 'c) executor \<Rightarrow> string \<Rightarrow> job \<Rightarrow> ('w, 'c) run_state
     \<Rightarrow> error option \<times> ('w, 'c) run_state" where
  "attempt ex stg j \<sigma> =
     (case job_kind_of (runner_type j) stg of
        Inl e \<Rightarrow> (Some e, \<sigma>)
      | Inr kind \<Rightarrow>
          (case execute_job ex kind j \<sigma> of
             (None, \<sigma>') \<Rightarrow> (None, add_completed (name j) \<sigma>')
           | (Some e, \<sigma>') \<Rightarrow> (Some e, \<sigma>')))"

definition run_job ::
  "('w, 'c) executor \<Rightarrow> string \<Rightarrow> string \<Rightarrow> job \<Rightarrow> ('w, 'c) run_state
     \<Rightarrow> error option \<times> ('w, 'c) run_state" where
  "run_job ex on_error stg j \<sigma> =
     (case attempt ex stg j \<sigma> of
        (None, \<sigma>') \<Rightarrow> (None, \<sigma>')
      | (Some e, \<sigma>') \<Rightarrow>
          if \<not> is_Exception e then (Some e, \<sigma>')
          else (let \<sigma>1 = caught (name j) e \<sigma>' in
                if on_error = ''stop'' then (Some e, \<sigma>1)
                else if on_error = ''continue'' then
                  (None, add_completed (name j) (set_status (name j) Failed \<sigma>1))
                else (Some e, \<sigma>1)))"

text \<open>\<^verbatim>\<open>for job in ready_jobs\<close>: an exception leaves the loop.\<close>

fun run_ready ::
  "('w, 'c) executor \<Rightarrow> string \<Rightarrow> string \<Rightarrow> job list \<Rightarrow> ('w, 'c) run_state
     \<Rightarrow> error option \<times> ('w, 'c) run_state" where
  "run_ready ex on_error stg [] \<sigma> = (None, \<sigma>)"
| "run_ready ex on_error stg (j # js) \<sigma> =
     (case run_job ex on_error stg j \<sigma> of
        (None, \<sigma>') \<Rightarrow> run_ready ex on_error stg js \<sigma>'
      | (Some e, \<sigma>') \<Rightarrow> (Some e, \<sigma>'))"

text \<open>
  \<^verbatim>\<open>while True\<close>: the loop of one stage. It ends because every round with a ready job
  takes at least one job out of the pending ones.
\<close>

definition pending_count :: "('w, 'c) run_state \<Rightarrow> nat" where
  "pending_count \<sigma> = length (filter (\<lambda>j. status j = Pending) (dict_values (jobs \<sigma>)))"

function run_stage ::
  "('w, 'c) executor \<Rightarrow> string \<Rightarrow> string \<Rightarrow> ('w, 'c) run_state
     \<Rightarrow> error option \<times> ('w, 'c) run_state" where
  "run_stage ex on_error stg \<sigma> =
     (let ready_jobs = get_ready_jobs (jobs \<sigma>) stg (completed_jobs \<sigma>) in
      if ready_jobs = [] then (None, \<sigma>)
      else (case run_ready ex on_error stg ready_jobs \<sigma> of
              (None, \<sigma>') \<Rightarrow> run_stage ex on_error stg \<sigma>'
            | (Some e, \<sigma>') \<Rightarrow> (Some e, \<sigma>')))"
  by pat_completeness auto

text \<open>
  The jobs after a run of one job are the jobs before it, or the jobs before it with one
  status other than pending written to the job that ran.
\<close>

definition rewritten :: "string \<Rightarrow> job_status \<Rightarrow> job list \<Rightarrow> job list" where
  "rewritten nm s js = map (\<lambda>j. if name j = nm then j\<lparr>status := s\<rparr> else j) js"

lemma values_set_status:
  "dict_values (jobs (set_status nm s \<sigma>)) = rewritten nm s (dict_values (jobs \<sigma>))"
  by (simp add: set_status_def dict_values_def rewritten_def case_prod_beta comp_def)

lemma rewritten_twice: "rewritten nm s (rewritten nm s' js) = rewritten nm s js"
  by (simp add: rewritten_def comp_def)

lemma values_simps [simp]:
  "jobs (add_completed nm \<sigma>) = jobs \<sigma>" "jobs (caught nm e \<sigma>) = jobs \<sigma>"
  "jobs (executed nm kind \<sigma>) = jobs \<sigma>"
  by (simp_all add: add_completed_def caught_def executed_def)

lemma rewritten_pending_le:
  "s \<noteq> Pending \<Longrightarrow>
     length (filter (\<lambda>j. status j = Pending) (rewritten nm s js))
       \<le> length (filter (\<lambda>j. status j = Pending) js)"
  by (induction js) (auto simp: rewritten_def)

lemma rewritten_pending_less:
  assumes "s \<noteq> Pending" and "j \<in> set js" and "status j = Pending"
  shows "length (filter (\<lambda>j. status j = Pending) (rewritten (name j) s js))
           < length (filter (\<lambda>j. status j = Pending) js)"
  using assms(2)
proof (induction js)
  case Nil
  then show ?case by simp
next
  case (Cons a js)
  have le: "length (filter (\<lambda>j. status j = Pending) (rewritten (name j) s js))
          \<le> length (filter (\<lambda>j. status j = Pending) js)"
    using assms(1) by (rule rewritten_pending_le)
  show ?case
  proof (cases "a = j")
    case True
    with le assms show ?thesis by (simp add: rewritten_def)
  next
    case False
    with Cons have "j \<in> set js" by simp
    from Cons.IH [OF this] assms(1) show ?thesis by (simp add: rewritten_def)
  qed
qed

lemma execute_job_values:
  "execute_job ex kind j \<sigma> = (r, \<sigma>') \<Longrightarrow>
     \<exists>s. s \<noteq> Pending \<and> dict_values (jobs \<sigma>') = rewritten (name j) s (dict_values (jobs \<sigma>))"
proof -
  assume run: "execute_job ex kind j \<sigma> = (r, \<sigma>')"
  let ?\<sigma>1 = "set_status (name j) Running (executed (name j) kind \<sigma>)"
  let ?eff = "ex kind j (executor_duckdb_con ?\<sigma>1) (world ?\<sigma>1)"
  let ?\<sigma>2 = "?\<sigma>1\<lparr>world := world_after ?eff, connections := connections ?\<sigma>1 @ conn_actions ?eff\<rparr>"
  have v1: "dict_values (jobs ?\<sigma>1) = rewritten (name j) Running (dict_values (jobs \<sigma>))"
    by (simp add: values_set_status)
  have v2: "dict_values (jobs (set_status (name j) s \<tau>))
              = rewritten (name j) s (dict_values (jobs \<sigma>))"
    if "jobs \<tau> = jobs ?\<sigma>1" for s \<tau>
  proof -
    have "dict_values (jobs (set_status (name j) s \<tau>))
            = rewritten (name j) s (dict_values (jobs \<tau>))" by (rule values_set_status)
    with that v1 show ?thesis by (simp add: rewritten_twice)
  qed
  show ?thesis
  proof (cases "outcome ?eff")
    case None
    with run have \<sigma>': "\<sigma>' = set_status (name j) Success
                      (if kind = TransformJob then ?\<sigma>2\<lparr>executor_duckdb_con := ctx_duckdb ?eff\<rparr>
                       else ?\<sigma>2)"
      by (simp add: execute_job_def Let_def)
    have "dict_values (jobs \<sigma>') = rewritten (name j) Success (dict_values (jobs \<sigma>))"
      unfolding \<sigma>' by (rule v2) simp
    then show ?thesis by (intro exI [of _ Success]) simp
  next
    case (Some e)
    show ?thesis
    proof (cases "is_Exception e")
      case True
      with Some run have \<sigma>': "\<sigma>' = set_status (name j) Failed ?\<sigma>2"
        by (simp add: execute_job_def Let_def)
      have "dict_values (jobs \<sigma>') = rewritten (name j) Failed (dict_values (jobs \<sigma>))"
        unfolding \<sigma>' by (rule v2) simp
      then show ?thesis by (intro exI [of _ Failed]) simp
    next
      case False
      with Some run have \<sigma>': "\<sigma>' = ?\<sigma>2" by (simp add: execute_job_def Let_def)
      have "dict_values (jobs \<sigma>') = rewritten (name j) Running (dict_values (jobs \<sigma>))"
        unfolding \<sigma>' using v1 by simp
      then show ?thesis by (intro exI [of _ Running]) simp
    qed
  qed
qed

lemma run_job_values:
  assumes "run_job ex on_error stg j \<sigma> = (r, \<sigma>')"
  shows "(r \<noteq> None \<and> dict_values (jobs \<sigma>') = dict_values (jobs \<sigma>)) \<or>
         (\<exists>s. s \<noteq> Pending \<and> dict_values (jobs \<sigma>') = rewritten (name j) s (dict_values (jobs \<sigma>)))"
proof (cases "job_kind_of (runner_type j) stg")
  case (Inl e)
  then have a: "attempt ex stg j \<sigma> = (Some e, \<sigma>)" by (simp add: attempt_def)
  show ?thesis
  proof (cases "is_Exception e \<and> on_error = ''continue''")
    case True
    with a assms have "\<sigma>' = add_completed (name j) (set_status (name j) Failed (caught (name j) e \<sigma>))"
      by (simp add: run_job_def Let_def)
    then have "dict_values (jobs \<sigma>') = rewritten (name j) Failed (dict_values (jobs \<sigma>))"
      by (simp add: values_set_status)
    then show ?thesis by (intro disjI2 exI [of _ Failed]) simp
  next
    case False
    with a assms have "r \<noteq> None \<and> jobs \<sigma>' = jobs \<sigma>"
      by (auto simp: run_job_def Let_def split: if_splits)
    then show ?thesis by simp
  qed
next
  case (Inr kind)
  obtain r1 \<sigma>1 where e: "execute_job ex kind j \<sigma> = (r1, \<sigma>1)"
    by (cases "execute_job ex kind j \<sigma>")
  from execute_job_values [OF e] obtain s where s: "s \<noteq> Pending"
    "dict_values (jobs \<sigma>1) = rewritten (name j) s (dict_values (jobs \<sigma>))" by auto
  show ?thesis
  proof (cases r1)
    case None
    with Inr e assms have "\<sigma>' = add_completed (name j) \<sigma>1"
      by (simp add: run_job_def attempt_def)
    with s show ?thesis by (intro disjI2 exI [of _ s]) simp
  next
    case (Some x)
    with Inr e have a: "attempt ex stg j \<sigma> = (Some x, \<sigma>1)" by (simp add: attempt_def)
    show ?thesis
    proof (cases "is_Exception x \<and> on_error = ''continue''")
      case True
      with a assms have "\<sigma>' = add_completed (name j) (set_status (name j) Failed (caught (name j) x \<sigma>1))"
        by (simp add: run_job_def Let_def)
      then have "dict_values (jobs \<sigma>') = rewritten (name j) Failed (dict_values (jobs \<sigma>1))"
        by (simp add: values_set_status)
      with s(2) have "dict_values (jobs \<sigma>') = rewritten (name j) Failed (dict_values (jobs \<sigma>))"
        by (simp add: rewritten_twice)
      then show ?thesis by (intro disjI2 exI [of _ Failed]) simp
    next
      case False
      with a assms have "jobs \<sigma>' = jobs \<sigma>1"
        by (auto simp: run_job_def Let_def split: if_splits)
      with s show ?thesis by (intro disjI2 exI [of _ s]) simp
    qed
  qed
qed

lemma run_job_pending_le:
  "run_job ex on_error stg j \<sigma> = (r, \<sigma>') \<Longrightarrow> pending_count \<sigma>' \<le> pending_count \<sigma>"
  using run_job_values [of ex on_error stg j \<sigma> r \<sigma>'] rewritten_pending_le
  by (auto simp: pending_count_def)

lemma run_job_pending_less:
  assumes "run_job ex on_error stg j \<sigma> = (None, \<sigma>')"
    and "j \<in> set (dict_values (jobs \<sigma>))" and "status j = Pending"
  shows "pending_count \<sigma>' < pending_count \<sigma>"
proof -
  from run_job_values [OF assms(1)] obtain s where "s \<noteq> Pending"
    "dict_values (jobs \<sigma>') = rewritten (name j) s (dict_values (jobs \<sigma>))" by auto
  with rewritten_pending_less [OF _ assms(2,3), of s] show ?thesis
    by (simp add: pending_count_def)
qed

lemma ready_job_pending:
  "j \<in> set (get_ready_jobs d stg completed) \<Longrightarrow> j \<in> set (dict_values d) \<and> status j = Pending"
  by (simp add: get_ready_jobs_filter)

lemma run_ready_pending_le:
  "run_ready ex on_error stg js \<sigma> = (r, \<sigma>') \<Longrightarrow> pending_count \<sigma>' \<le> pending_count \<sigma>"
proof (induction js arbitrary: \<sigma>)
  case Nil
  then show ?case by simp
next
  case (Cons j js)
  obtain r1 \<sigma>1 where j: "run_job ex on_error stg j \<sigma> = (r1, \<sigma>1)"
    by (cases "run_job ex on_error stg j \<sigma>")
  have le: "pending_count \<sigma>1 \<le> pending_count \<sigma>" using j by (rule run_job_pending_le)
  show ?case
  proof (cases r1)
    case None
    with Cons.prems j have "run_ready ex on_error stg js \<sigma>1 = (r, \<sigma>')" by simp
    from Cons.IH [OF this] le show ?thesis by simp
  next
    case (Some e)
    with Cons.prems j le show ?thesis by simp
  qed
qed

lemma run_ready_pending_less:
  assumes "run_ready ex on_error stg (j # js) \<sigma> = (None, \<sigma>')"
    and "j \<in> set (dict_values (jobs \<sigma>))" and "status j = Pending"
  shows "pending_count \<sigma>' < pending_count \<sigma>"
proof -
  obtain r1 \<sigma>1 where j: "run_job ex on_error stg j \<sigma> = (r1, \<sigma>1)"
    by (cases "run_job ex on_error stg j \<sigma>")
  with assms(1) have r1: "r1 = None" and rest: "run_ready ex on_error stg js \<sigma>1 = (None, \<sigma>')"
    by (auto split: option.splits)
  from j r1 assms(2,3) have "pending_count \<sigma>1 < pending_count \<sigma>"
    by (auto intro: run_job_pending_less)
  with run_ready_pending_le [OF rest] show ?thesis by simp
qed

termination run_stage
proof (relation "measure (\<lambda>(ex, on_error, stg, \<sigma>). pending_count \<sigma>)")
  show "wf (measure (\<lambda>(ex, on_error, stg, \<sigma>). pending_count \<sigma>))" by simp
next
  fix ex :: "('w, 'c) executor" and on_error stg :: string and \<sigma> \<sigma>' :: "('w, 'c) run_state"
    and ready_jobs x
  assume ready: "ready_jobs = get_ready_jobs (jobs \<sigma>) stg (completed_jobs \<sigma>)"
    and ne: "ready_jobs \<noteq> []"
    and run: "(x, \<sigma>') = run_ready ex on_error stg ready_jobs \<sigma>" and x: "x = None"
  from ne obtain j js where js: "ready_jobs = j # js" by (cases ready_jobs) auto
  have "j \<in> set ready_jobs" using js by simp
  then have "j \<in> set (get_ready_jobs (jobs \<sigma>) stg (completed_jobs \<sigma>))"
    unfolding ready .
  then have "j \<in> set (dict_values (jobs \<sigma>))" "status j = Pending"
    using ready_job_pending by blast+
  with run x js have "pending_count \<sigma>' < pending_count \<sigma>"
    by (intro run_ready_pending_less [of ex on_error stg j js \<sigma> \<sigma>']) simp_all
  then show "((ex, on_error, stg, \<sigma>'), (ex, on_error, stg, \<sigma>)) \<in> measure (\<lambda>(ex, on_error, stg, \<sigma>). pending_count \<sigma>)"
    by simp
qed

declare run_stage.simps [simp del]

text \<open>
  \<^verbatim>\<open>for stage in stages_list\<close>: a stage without jobs is skipped (\<^verbatim>\<open>continue\<close>), an
  exception ends the loop.
\<close>

fun run_stages ::
  "('w, 'c) executor \<Rightarrow> string \<Rightarrow> string list \<Rightarrow> ('w, 'c) run_state
     \<Rightarrow> error option \<times> ('w, 'c) run_state" where
  "run_stages ex on_error [] \<sigma> = (None, \<sigma>)"
| "run_stages ex on_error (stg # stgs) \<sigma> =
     (let stage_jobs = filter (\<lambda>j. stage j = stg) (dict_values (jobs \<sigma>)) in
      if stage_jobs = [] then run_stages ex on_error stgs \<sigma>
      else (case run_stage ex on_error stg \<sigma> of
              (None, \<sigma>') \<Rightarrow> run_stages ex on_error stgs \<sigma>'
            | (Some e, \<sigma>') \<Rightarrow> (Some e, \<sigma>')))"

text \<open>
  The part of the expanded configuration the driver reads: \<^verbatim>\<open>stages\<close>, \<^verbatim>\<open>jobs\<close> (a
  dictionary, in its order), the \<^verbatim>\<open>type\<close> of each entry of \<^verbatim>\<open>runners\<close>, and
  \<^verbatim>\<open>execution.on_error\<close>, which defaults to \<^verbatim>\<open>stop\<close>.
\<close>

record job_config =
  cfg_stage :: string
  cfg_runner :: string
  cfg_depends_on :: "string list"

record pipeline_config =
  cfg_stages :: "string list"
  cfg_jobs :: "(string \<times> job_config) list"
  cfg_runner_types :: "string \<Rightarrow> string option"
  cfg_on_error :: "string option"

definition create_jobs :: "pipeline_config \<Rightarrow> job list" where
  "create_jobs cfg =
     map (\<lambda>(job_name, job_cfg).
            Job job_name (cfg_stage job_cfg)
              (case cfg_runner_types cfg (cfg_runner job_cfg) of None \<Rightarrow> [] | Some t \<Rightarrow> t)
              (cfg_depends_on job_cfg))
         (cfg_jobs cfg)"

definition on_error_of :: "pipeline_config \<Rightarrow> string" where
  "on_error_of cfg = (case cfg_on_error cfg of None \<Rightarrow> ''stop'' | Some v \<Rightarrow> v)"

text \<open>
  The state in which the \<^verbatim>\<open>try\<close> block of \<^verbatim>\<open>orchestrator\<close> is entered: no job yet,
  nothing completed, and the connection \<^verbatim>\<open>duckdb_con\<close> of the driver, which the executor
  is constructed with, opened if there is one.
\<close>

definition initial_state :: "'c option \<Rightarrow> 'w \<Rightarrow> ('w, 'c) run_state" where
  "initial_state duckdb_con w =
     \<lparr>jobs = [], completed_jobs = {}, world = w, executor_duckdb_con = duckdb_con,
      connections = (case duckdb_con of None \<Rightarrow> [] | Some c \<Rightarrow> [Connected c]),
      history = []\<rparr>"

text \<open>
  The \<^verbatim>\<open>try\<close> block of \<^verbatim>\<open>orchestrator\<close> up to the end of the stage loop: no jobs, the
  early \<^verbatim>\<open>return\<close>; otherwise the jobs, the graph (which may raise) and the stages. The
  summary and the report that follow only log, and the report's own exceptions are
  caught.
\<close>

definition pipeline ::
  "('w, 'c) executor \<Rightarrow> 'c option \<Rightarrow> pipeline_config \<Rightarrow> 'w \<Rightarrow> error option \<times> ('w, 'c) run_state" where
  "pipeline ex duckdb_con cfg w =
     (if cfg_jobs cfg = [] then (None, initial_state duckdb_con w)
      else (let js = create_jobs cfg in
            case JobDAG js of
              Inl e \<Rightarrow> (Some e, (initial_state duckdb_con w)\<lparr>jobs := jobs_dict js\<rparr>)
            | Inr dag \<Rightarrow>
                run_stages ex (on_error_of cfg) (cfg_stages cfg)
                  ((initial_state duckdb_con w)\<lparr>jobs := dag_jobs dag\<rparr>)))"

text \<open>
  The warehouse: \<open>None\<close> when \<^verbatim>\<open>warehouse_cfg\<close> is empty; otherwise what
  \<^verbatim>\<open>get_database_engine(warehouse_cfg)\<close> and \<^verbatim>\<open>db_engine.connect(warehouse_cfg)\<close> do,
  each of which returns its object or raises, and then the loop over
  \<^verbatim>\<open>warehouse_cfg.get("schemas", [])\<close>. \<open>schemas\<close> is \<open>None\<close> when that value cannot be
  iterated (the key is there with the value \<^verbatim>\<open>None\<close>, or with a number), which raises a
  \<^verbatim>\<open>TypeError\<close>; \<open>create_schema\<close> is what \<^verbatim>\<open>duckdb_con.execute\<close> raises for one schema,
  of which the loop catches what is of class \<^verbatim>\<open>Exception\<close>. All of this happens before
  the \<^verbatim>\<open>try\<close>, so an exception here leaves \<^verbatim>\<open>orchestrator\<close> without the \<^verbatim>\<open>finally\<close>
  block. The call of \<^verbatim>\<open>log.db_connect\<close> after the loop only logs.
\<close>

record ('e, 'c) warehouse =
  get_database_engine :: "error + 'e"
  connect :: "'e \<Rightarrow> error + 'c"
  schemas :: "string list option"
  create_schema :: "'c \<Rightarrow> string \<Rightarrow> error option"

fun create_schemas :: "('c \<Rightarrow> string \<Rightarrow> error option) \<Rightarrow> 'c \<Rightarrow> string list \<Rightarrow> error option" where
  "create_schemas execute duckdb_con [] = None"
| "create_schemas execute duckdb_con (schema # rest) =
     (case execute duckdb_con schema of
        None \<Rightarrow> create_schemas execute duckdb_con rest
      | Some e \<Rightarrow>
          if is_Exception e then create_schemas execute duckdb_con rest else Some e)"

definition open_warehouse :: "('e, 'c) warehouse option \<Rightarrow> error + ('e option \<times> 'c option)" where
  "open_warehouse warehouse_cfg =
     (case warehouse_cfg of
        None \<Rightarrow> Inr (None, None)
      | Some wh \<Rightarrow>
          (case get_database_engine wh of
             Inl e \<Rightarrow> Inl e
           | Inr db_engine \<Rightarrow>
               (case connect wh db_engine of
                  Inl e \<Rightarrow> Inl e
                | Inr duckdb_con \<Rightarrow>
                    (case schemas wh of
                       None \<Rightarrow> Inl (TypeError ''object is not iterable'')
                     | Some names \<Rightarrow>
                         (case create_schemas (create_schema wh) duckdb_con names of
                            Some e \<Rightarrow> Inl e
                          | None \<Rightarrow> Inr (Some db_engine, Some duckdb_con))))))"

text \<open>
  The connection that \<^verbatim>\<open>db_engine.connect\<close> returned, if the run came that far, whatever
  happened after it.
\<close>

definition connected :: "('e, 'c) warehouse option \<Rightarrow> 'c option" where
  "connected warehouse_cfg =
     (case warehouse_cfg of
        None \<Rightarrow> None
      | Some wh \<Rightarrow>
          (case get_database_engine wh of
             Inl e \<Rightarrow> None
           | Inr db_engine \<Rightarrow>
               (case connect wh db_engine of Inl e \<Rightarrow> None | Inr duckdb_con \<Rightarrow> Some duckdb_con)))"

text \<open>
  The \<^verbatim>\<open>finally\<close> block. An engine and a connection object are true in a condition
  exactly when they are not \<^verbatim>\<open>None\<close>. The second branch calls \<^verbatim>\<open>close_quietly\<close>, a
  name the module neither defines nor imports.
\<close>

datatype ('e, 'c) cleanup_action = EngineClose 'e 'c | CloseQuietly 'c | NoClose

fun cleanup :: "'e option \<Rightarrow> 'c option \<Rightarrow> ('e, 'c) cleanup_action" where
  "cleanup (Some db_engine) (Some duckdb_con) = EngineClose db_engine duckdb_con"
| "cleanup None (Some duckdb_con) = CloseQuietly duckdb_con"
| "cleanup db_engine None = NoClose"

text \<open>
  \<^verbatim>\<open>orchestrator\<close>: the exception that leaves it (if any), the state at that moment, and
  the branch the \<^verbatim>\<open>finally\<close> block took (\<open>None\<close> when the \<^verbatim>\<open>try\<close> was never entered).
  The block closes \<^verbatim>\<open>duckdb_con\<close>, the local variable of the driver, which was assigned
  once, from \<^verbatim>\<open>db_engine.connect\<close>; the connection that the executor holds at that moment
  is not looked at.
\<close>

record ('w, 'e, 'c) run_result =
  raised :: "error option"
  final :: "('w, 'c) run_state"
  cleanup_taken :: "('e, 'c) cleanup_action option"

definition orchestrator ::
  "('w, 'c) executor \<Rightarrow> ('e, 'c) warehouse option \<Rightarrow> pipeline_config \<Rightarrow> 'w
     \<Rightarrow> ('w, 'e, 'c) run_result" where
  "orchestrator ex warehouse_cfg cfg w =
     (case open_warehouse warehouse_cfg of
        Inl e \<Rightarrow>
          \<lparr>raised = Some e, final = initial_state (connected warehouse_cfg) w,
           cleanup_taken = None\<rparr>
      | Inr (db_engine, duckdb_con) \<Rightarrow>
          (case pipeline ex duckdb_con cfg w of (r, \<sigma>) \<Rightarrow>
             (case cleanup db_engine duckdb_con of
                EngineClose e c \<Rightarrow>
                  \<lparr>raised = r, final = \<sigma>\<lparr>connections := connections \<sigma> @ [EngineClosed c]\<rparr>,
                   cleanup_taken = Some (EngineClose e c)\<rparr>
              | CloseQuietly c \<Rightarrow>
                  \<lparr>raised = Some (NameError ''close_quietly''), final = \<sigma>,
                   cleanup_taken = Some (CloseQuietly c)\<rparr>
              | NoClose \<Rightarrow>
                  \<lparr>raised = r, final = \<sigma>, cleanup_taken = Some NoClose\<rparr>)))"

text \<open>
  What a list of openings and closings leaves: the connections still open, in the order
  they were opened, and how often \<^verbatim>\<open>close\<close> was called on one connection, directly or
  through the engine.
\<close>

fun open_connections :: "'c conn_action list \<Rightarrow> 'c list \<Rightarrow> 'c list" where
  "open_connections [] opened = opened"
| "open_connections (Connected c # rest) opened = open_connections rest (opened @ [c])"
| "open_connections (Closed c # rest) opened = open_connections rest (removeAll c opened)"
| "open_connections (EngineClosed c # rest) opened = open_connections rest (removeAll c opened)"

definition close_calls :: "'c \<Rightarrow> 'c conn_action list \<Rightarrow> nat" where
  "close_calls c actions = length (filter (\<lambda>a. a = Closed c \<or> a = EngineClosed c) actions)"

text \<open>A small pipeline for the examples: one extract job and two load jobs.\<close>

definition example_jobs :: "job list" where
  "example_jobs =
     [Job ''a'' ''extract'' ''reader'' [],
      Job ''b'' ''load'' ''writer'' [''a''],
      Job ''c'' ''load'' ''writer'' [''a'', ''b'']]"





text \<open>
  Runs for the examples: three stages with one job each and a warehouse that opens.
  Under \<open>example_executor\<close> the transform job raises, under \<open>interrupted_executor\<close> it
  is interrupted from the keyboard, under \<open>quiet_executor\<close> no job raises, and under
  \<open>dbt_executor\<close> the transform job does what \<^verbatim>\<open>runners/dbt_runner.py\<close> does with the
  connection: it closes the one it is given and puts a new one into \<^verbatim>\<open>ctx\<close>.
  \<open>undetermined_config\<close> has a job whose runner has no type and whose stage name matches
  none of the substrings; \<open>broken_config\<close> has a dependency on a job that does not exist;
  the schemas of \<open>unlisted_warehouse\<close> are \<^verbatim>\<open>None\<close>.
\<close>

definition example_executor :: "(nat, nat) executor" where
  "example_executor kind j con w =
     \<lparr>outcome = (if name j = ''t'' then Some (Raised ''boom'') else None),
      world_after = Suc w, conn_actions = [], ctx_duckdb = con\<rparr>"

definition interrupted_executor :: "(nat, nat) executor" where
  "interrupted_executor kind j con w =
     \<lparr>outcome = (if name j = ''t'' then Some (Interrupt ''KeyboardInterrupt'') else None),
      world_after = Suc w, conn_actions = [], ctx_duckdb = con\<rparr>"

definition quiet_executor :: "(nat, nat) executor" where
  "quiet_executor kind j con w =
     \<lparr>outcome = None, world_after = w, conn_actions = [], ctx_duckdb = con\<rparr>"

definition dbt_executor :: "(nat, nat) executor" where
  "dbt_executor kind j con w =
     (if kind = TransformJob then
        (case con of
           None \<Rightarrow>
             \<lparr>outcome = Some (Raised ''Transform job requires DuckDB connection''),
              world_after = w, conn_actions = [], ctx_duckdb = None\<rparr>
         | Some c \<Rightarrow>
             \<lparr>outcome = None, world_after = Suc w,
              conn_actions = [Closed c, Connected (Suc c)], ctx_duckdb = Some (Suc c)\<rparr>)
      else \<lparr>outcome = None, world_after = Suc w, conn_actions = [], ctx_duckdb = con\<rparr>)"

definition example_config :: "string \<Rightarrow> pipeline_config" where
  "example_config policy =
     \<lparr>cfg_stages = [''extract'', ''transform'', ''load''],
      cfg_jobs =
        [(''e'', \<lparr>cfg_stage = ''extract'', cfg_runner = ''csv'', cfg_depends_on = []\<rparr>),
         (''t'', \<lparr>cfg_stage = ''transform'', cfg_runner = ''dbt'', cfg_depends_on = [''e'']\<rparr>),
         (''l'', \<lparr>cfg_stage = ''load'', cfg_runner = ''json'', cfg_depends_on = [''t'']\<rparr>)],
      cfg_runner_types = map_of [(''csv'', ''reader'')],
      cfg_on_error = Some policy\<rparr>"

definition quiet_config :: pipeline_config where
  "quiet_config =
     \<lparr>cfg_stages = [''extract''],
      cfg_jobs = [(''e'', \<lparr>cfg_stage = ''extract'', cfg_runner = ''csv'', cfg_depends_on = []\<rparr>)],
      cfg_runner_types = map_of [(''csv'', ''reader'')],
      cfg_on_error = None\<rparr>"

definition broken_config :: pipeline_config where
  "broken_config =
     \<lparr>cfg_stages = [''extract''],
      cfg_jobs = [(''e'', \<lparr>cfg_stage = ''extract'', cfg_runner = ''csv'', cfg_depends_on = [''ghost'']\<rparr>)],
      cfg_runner_types = map_of [(''csv'', ''reader'')],
      cfg_on_error = None\<rparr>"

definition undetermined_config :: "string \<Rightarrow> pipeline_config" where
  "undetermined_config policy =
     \<lparr>cfg_stages = [''cleanup''],
      cfg_jobs = [(''purge'', \<lparr>cfg_stage = ''cleanup'', cfg_runner = ''shell'', cfg_depends_on = []\<rparr>)],
      cfg_runner_types = map_of [(''csv'', ''reader'')],
      cfg_on_error = Some policy\<rparr>"

definition example_warehouse :: "(string, nat) warehouse" where
  "example_warehouse =
     \<lparr>get_database_engine = Inr ''duckdb'', connect = (\<lambda>e. Inr 42),
      schemas = Some [''raw'', ''staging''], create_schema = (\<lambda>c s. None)\<rparr>"

definition unlisted_warehouse :: "(string, nat) warehouse" where
  "unlisted_warehouse =
     \<lparr>get_database_engine = Inr ''duckdb'', connect = (\<lambda>e. Inr 42),
      schemas = None, create_schema = (\<lambda>c s. None)\<rparr>"

section \<open>Properties of the dependency graph\<close>

lemma add_edges_fails:
  "(\<exists>e. add_edges d j deps g = Inl e) \<longleftrightarrow> (\<exists>dep \<in> set deps. dep \<notin> set (dict_keys d))"
  by (induction deps arbitrary: g) auto

lemma add_edges_error:
  "add_edges d j deps g = Inl e \<Longrightarrow>
     \<exists>dep \<in> set deps. dep \<notin> set (dict_keys d) \<and> e = UnknownDependency (name j) dep"
  by (induction deps arbitrary: g) (auto split: if_splits)

lemma build_loop_fails:
  "(\<exists>e. build_loop d js g = Inl e) \<longleftrightarrow>
     (\<exists>j \<in> set js. \<exists>dep \<in> set (depends_on j). dep \<notin> set (dict_keys d))"
proof (induction js arbitrary: g)
  case Nil
  show ?case by simp
next
  case (Cons j js)
  show ?case
  proof (cases "add_edges d j (depends_on j) g")
    case (Inl e)
    then have "\<exists>dep \<in> set (depends_on j). dep \<notin> set (dict_keys d)"
      using add_edges_fails [of d j "depends_on j" g] by auto
    with Inl show ?thesis by auto
  next
    case (Inr g')
    then have "\<not> (\<exists>dep \<in> set (depends_on j). dep \<notin> set (dict_keys d))"
      using add_edges_fails [of d j "depends_on j" g] by auto
    with Inr Cons.IH [of g'] show ?thesis by auto
  qed
qed

lemma build_loop_error:
  "build_loop d js g = Inl e \<Longrightarrow>
     \<exists>j \<in> set js. \<exists>dep \<in> set (depends_on j).
        dep \<notin> set (dict_keys d) \<and> e = UnknownDependency (name j) dep"
proof (induction js arbitrary: g)
  case Nil
  then show ?case by simp
next
  case (Cons j js)
  show ?case
  proof (cases "add_edges d j (depends_on j) g")
    case (Inl e')
    with Cons.prems have "e' = e" by simp
    with Inl add_edges_error [of d j "depends_on j" g e] show ?thesis by auto
  next
    case (Inr g')
    with Cons.prems have "build_loop d js g' = Inl e" by simp
    from Cons.IH [OF this] show ?thesis by auto
  qed
qed

lemma JobDAG_fails:
  "(\<exists>e. JobDAG js = Inl e) \<longleftrightarrow>
     (\<exists>j \<in> set (dict_values (jobs_dict js)). \<exists>dep \<in> set (depends_on j).
         dep \<notin> set (dict_keys (jobs_dict js)))"
  using build_loop_fails [of "jobs_dict js" "dict_values (jobs_dict js)" "\<lambda>_. {}"]
  by (auto simp: JobDAG_def build_graph_def Let_def split: sum.splits)

lemma JobDAG_error:
  "JobDAG js = Inl e \<Longrightarrow>
     \<exists>j \<in> set (dict_values (jobs_dict js)). \<exists>dep \<in> set (depends_on j).
        dep \<notin> set (dict_keys (jobs_dict js)) \<and> e = UnknownDependency (name j) dep"
  using build_loop_error [of "jobs_dict js" "dict_values (jobs_dict js)" "\<lambda>_. {}" e]
  by (auto simp: JobDAG_def build_graph_def Let_def split: sum.splits)

lemma JobDAG_jobs: "JobDAG js = Inr dag \<Longrightarrow> dag_jobs dag = jobs_dict js"
  by (auto simp: JobDAG_def Let_def split: sum.splits)

lemma distinct_foldl_update:
  "distinct (map fst d) \<Longrightarrow> distinct (map fst (foldl (\<lambda>d j. AList.update (name j) j d) d js))"
  by (induction js arbitrary: d) (auto simp: distinct_update)

lemma distinct_jobs_dict: "distinct (dict_keys (jobs_dict js))"
  unfolding jobs_dict_def dict_keys_def by (rule distinct_foldl_update) simp

lemma in_set_update:
  "(k, x) \<in> set (AList.update a v d) \<Longrightarrow> (k, x) = (a, v) \<or> (k, x) \<in> set d"
  by (induction d) (auto split: if_splits)

lemma keyed_foldl_update:
  "\<forall>(k, j) \<in> set d. name j = k \<Longrightarrow>
     \<forall>(k, j) \<in> set (foldl (\<lambda>d j. AList.update (name j) j d) d js). name j = k"
proof (induction js arbitrary: d)
  case Nil
  then show ?case by simp
next
  case (Cons a js)
  have "\<forall>(k, j) \<in> set (AList.update (name a) a d). name j = k"
    using Cons.prems by (auto dest: in_set_update)
  from Cons.IH [OF this] show ?case by simp
qed

lemma keyed_jobs_dict: "(k, j) \<in> set (jobs_dict js) \<Longrightarrow> name j = k"
  using keyed_foldl_update [of "[]" js] unfolding jobs_dict_def by auto

lemma jobs_dict_distinct_names:
  "distinct (map name js) \<Longrightarrow> jobs_dict js = map (\<lambda>j. (name j, j)) js"
proof -
  have "distinct (map name js) \<Longrightarrow> set (map name js) \<inter> set (map fst d) = {} \<Longrightarrow>
        foldl (\<lambda>d j. AList.update (name j) j d) d js = d @ map (\<lambda>j. (name j, j)) js" for d
  proof (induction js arbitrary: d)
    case Nil
    then show ?case by simp
  next
    case (Cons a js)
    have upd: "AList.update (name a) a d = d @ [(name a, a)]"
      using Cons.prems(2) by (induction d) auto
    have "foldl (\<lambda>d j. AList.update (name j) j d) (d @ [(name a, a)]) js
            = (d @ [(name a, a)]) @ map (\<lambda>j. (name j, j)) js"
      using Cons.prems by (intro Cons.IH) auto
    with upd show ?case by simp
  qed
  from this [of "[]"] show "distinct (map name js) \<Longrightarrow> jobs_dict js = map (\<lambda>j. (name j, j)) js"
    by (simp add: jobs_dict_def)
qed

text \<open>
  C2: \<^verbatim>\<open>get_ready_jobs(stage, completed)\<close> returns, in the order of the job dictionary,
  exactly the jobs whose stage is the argument, whose status is pending and whose every
  \<^verbatim>\<open>depends_on\<close> entry is in \<^verbatim>\<open>completed\<close>. The stage of a dependency is never
  looked at.
\<close>

theorem C2_get_ready_jobs:
  "get_ready_jobs d stg completed =
     filter (\<lambda>j. stage j = stg \<and> status j = Pending \<and> set (depends_on j) \<subseteq> completed)
       (dict_values d)"
  by (rule get_ready_jobs_filter)

theorem C2_get_ready_jobs_witness:
  "get_ready_jobs (jobs_dict example_jobs) ''load'' {''a''} = [Job ''b'' ''load'' ''writer'' [''a'']]"
  using C2_get_ready_jobs [of "jobs_dict example_jobs" "''load''" "{''a''}"]
  by (simp add: example_jobs_def jobs_dict_def Job_def dict_values_def)

section \<open>Properties of the variable expansion\<close>

lemma match_dollar_None: "c \<noteq> CHR ''$'' \<Longrightarrow> match_dollar (c # cs) = None"
  by (simp add: match_dollar_def split: list.splits)

lemma match_dollar_None2: "c2 \<noteq> CHR ''{'' \<Longrightarrow> match_dollar (c # c2 # cs) = None"
  by (simp add: match_dollar_def)

lemma match_dollar_None1: "match_dollar [c] = None"
  by (simp add: match_dollar_def)

lemma match_braces_None: "c \<noteq> CHR ''{'' \<Longrightarrow> match_braces (c # cs) = None"
  by (simp add: match_braces_def)


lemma takeWhile_until:
  "\<forall>x \<in> set n. P x \<Longrightarrow> \<not> P c \<Longrightarrow> takeWhile P (n @ c # rest) = n"
  by (induction n) auto

lemma dropWhile_until:
  "\<forall>x \<in> set n. P x \<Longrightarrow> \<not> P c \<Longrightarrow> dropWhile P (n @ c # rest) = c # rest"
  by (induction n) auto

lemma match_dollar_placeholder:
  assumes "n \<noteq> []" and "CHR ''}'' \<notin> set n"
  shows "match_dollar (''${'' @ n @ ''}'' @ rest) = Some (n, rest)"
proof -
  have all: "\<forall>x \<in> set n. x \<noteq> CHR ''}''" using assms(2) by auto
  have "takeWhile (\<lambda>c. c \<noteq> CHR ''}'') (n @ CHR ''}'' # rest) = n"
    using all by (rule takeWhile_until) simp
  moreover have "dropWhile (\<lambda>c. c \<noteq> CHR ''}'') (n @ CHR ''}'' # rest) = CHR ''}'' # rest"
    using all by (rule dropWhile_until) simp
  ultimately show ?thesis using assms(1) by (simp add: match_dollar_def)
qed

lemma not_word_char_close: "\<not> word_char (CHR ''}'')"
  by (simp add: word_char_def)

lemma match_braces_placeholder:
  assumes "n \<noteq> []" and "list_all word_char n"
  shows "match_braces (''{'' @ n @ ''}'' @ rest) = Some (n, rest)"
proof -
  have all: "\<forall>x \<in> set n. word_char x" using assms(2) by (simp add: list_all_iff)
  have "takeWhile word_char (n @ CHR ''}'' # rest) = n"
    using all not_word_char_close by (rule takeWhile_until)
  moreover have "dropWhile word_char (n @ CHR ''}'' # rest) = CHR ''}'' # rest"
    using all not_word_char_close by (rule dropWhile_until)
  ultimately show ?thesis using assms(1) by (simp add: match_braces_def)
qed

lemma word_char_not_special: "word_char c \<Longrightarrow> c \<noteq> CHR ''$'' \<and> c \<noteq> CHR ''{'' \<and> c \<noteq> CHR ''}''"
  by (auto simp: word_char_def)















lemma placeholder_free_fixed:
  "placeholder_free s \<Longrightarrow> dollar_sub repl s = s \<and> braces_sub repl s = s"
  by (induction s) auto

lemma expand_fixed:
  "\<forall>s \<in> set (strings_of c). placeholder_free s \<Longrightarrow> expand c env = c"
proof (induction c)
  case (CMapping kvs)
  have "map (\<lambda>(k, v). (k, expand v env)) kvs = kvs"
  proof (rule map_idI)
    fix kv assume kv: "kv \<in> set kvs"
    obtain k v where [simp]: "kv = (k, v)" by (cases kv)
    have "\<forall>s \<in> set (strings_of v). placeholder_free s"
      using CMapping.prems kv by fastforce
    with CMapping.IH [of kv v] kv show "(case kv of (k, v) \<Rightarrow> (k, expand v env)) = kv" by simp
  qed
  then show ?case by simp
next
  case (CList vs)
  have "map (\<lambda>v. expand v env) vs = vs"
    using CList by (intro map_idI) auto
  then show ?case by simp
next
  case (CTuple vs)
  have "map (\<lambda>v. expand v env) vs = vs"
    using CTuple by (intro map_idI) auto
  then show ?case by simp
qed (simp_all add: placeholder_free_fixed)

lemma match_braces_None2: "\<not> word_char d \<Longrightarrow> match_braces (c # d # cs) = None"
  by (simp add: match_braces_def)

lemma inert_placeholder_free: "inert s \<Longrightarrow> placeholder_free s"
proof (induction s rule: inert.induct)
  case 1
  show ?case by simp
next
  case (2 c)
  then show ?case by (simp add: match_dollar_None1 match_braces_None)
next
  case (3 c d cs)
  then have "match_dollar (c # d # cs) = None"
    by (cases "c = CHR ''$''") (simp_all add: match_dollar_None match_dollar_None2)
  moreover from 3 have "match_braces (c # d # cs) = None"
    by (cases "c = CHR ''{''") (simp_all add: match_braces_None match_braces_None2)
  ultimately show ?case using 3 by simp
qed

lemma inert_append: "inert a \<Longrightarrow> inert b \<Longrightarrow> inert (a @ b)"
proof (induction a rule: inert.induct)
  case 1
  then show ?case by simp
next
  case (2 c)
  then show ?case by (cases b) simp_all
next
  case (3 c d cs)
  then show ?case by simp
qed

lemma inert_concat: "\<forall>t \<in> set ts. inert t \<Longrightarrow> inert (concat ts)"
  by (induction ts) (simp_all add: inert_append)

lemma clean_inert: "clean_value v \<Longrightarrow> inert v"
proof (induction v rule: inert.induct)
  case 1
  show ?case by simp
next
  case (2 c)
  then show ?case by (auto simp: clean_value_def)
next
  case (3 c d cs)
  then show ?case by (auto simp: clean_value_def)
qed

lemma dollar_sub_inert: "inert t \<Longrightarrow> dollar_sub repl (t @ rest) = t @ dollar_sub repl rest"
proof (induction t rule: inert.induct)
  case 1
  show ?case by simp
next
  case (2 c)
  then show ?case by (simp add: match_dollar_None)
next
  case (3 c d cs)
  then have "match_dollar (c # d # cs @ rest) = None"
    by (cases "c = CHR ''$''") (simp_all add: match_dollar_None match_dollar_None2)
  with 3 show ?case by simp
qed

lemma braces_sub_inert: "inert t \<Longrightarrow> braces_sub repl (t @ rest) = t @ braces_sub repl rest"
proof (induction t rule: inert.induct)
  case 1
  show ?case by simp
next
  case (2 c)
  then show ?case by (simp add: match_braces_None)
next
  case (3 c d cs)
  then have "match_braces (c # d # cs @ rest) = None"
    by (cases "c = CHR ''{''") (simp_all add: match_braces_None match_braces_None2)
  with 3 show ?case by simp
qed

lemma dollar_sub_segments:
  "list_all (plain_segment env) segs \<Longrightarrow>
     dollar_sub (env_get env) (concat (map render segs) @ rest)
       = concat (map (after_dollar env) segs) @ dollar_sub (env_get env) rest"
proof (induction segs)
  case Nil
  show ?case by simp
next
  case (Cons sg segs)
  then have IH: "dollar_sub (env_get env) (concat (map render segs) @ rest)
       = concat (map (after_dollar env) segs) @ dollar_sub (env_get env) rest" by simp
  show ?case
  proof (cases sg)
    case (Lit t)
    with Cons.prems have "inert t" by simp
    from dollar_sub_inert [OF this] IH Lit show ?thesis by simp
  next
    case (Dollar n)
    with Cons.prems have n: "n \<noteq> []" "CHR ''}'' \<notin> set n" by auto
    from match_dollar_placeholder [OF n, of "concat (map render segs) @ rest"] IH Dollar
    show ?thesis by simp
  next
    case (Brace n)
    with Cons.prems have n: "list_all word_char n" by auto
    have "dollar_sub (env_get env) (n @ CHR ''}'' # concat (map render segs) @ rest)
            = n @ dollar_sub (env_get env) (CHR ''}'' # concat (map render segs) @ rest)"
      using n by (induction n) (auto simp: match_dollar_None dest: word_char_not_special)
    with IH Brace show ?thesis by (simp add: match_dollar_None)
  qed
qed

lemma braces_sub_segments:
  "list_all (plain_segment env) segs \<Longrightarrow>
     braces_sub (env_get env) (concat (map (after_dollar env) segs) @ rest)
       = concat (map (resolve env) segs) @ braces_sub (env_get env) rest"
proof (induction segs)
  case Nil
  show ?case by simp
next
  case (Cons sg segs)
  then have IH: "braces_sub (env_get env) (concat (map (after_dollar env) segs) @ rest)
       = concat (map (resolve env) segs) @ braces_sub (env_get env) rest" by simp
  show ?case
  proof (cases sg)
    case (Lit t)
    with Cons.prems have "inert t" by simp
    from braces_sub_inert [OF this] IH Lit show ?thesis by simp
  next
    case (Dollar n)
    with Cons.prems have "inert (env_get env n)" by (simp add: clean_inert)
    from braces_sub_inert [OF this] IH Dollar show ?thesis by simp
  next
    case (Brace n)
    with Cons.prems have n: "n \<noteq> []" "list_all word_char n" by auto
    from match_braces_placeholder [OF n, of "concat (map (after_dollar env) segs) @ rest"] IH Brace
    show ?thesis by simp
  qed
qed

lemma resolve_inert: "plain_segment env sg \<Longrightarrow> inert (resolve env sg)"
  by (cases sg) (simp_all add: clean_inert)

lemma expand_segments:
  assumes "list_all (plain_segment env) segs"
  shows "braces_sub (env_get env) (dollar_sub (env_get env) (concat (map render segs)))
           = concat (map (resolve env) segs)"
    and "inert (concat (map (resolve env) segs))"
proof -
  show "braces_sub (env_get env) (dollar_sub (env_get env) (concat (map render segs)))
           = concat (map (resolve env) segs)"
    using dollar_sub_segments [OF assms, of "[]"] braces_sub_segments [OF assms, of "[]"] by simp
  have "\<forall>t \<in> set (map (resolve env) segs). inert t"
    using assms by (auto simp: list_all_iff resolve_inert)
  then show "inert (concat (map (resolve env) segs))" by (rule inert_concat)
qed

lemma strings_of_expand:
  "strings_of (expand c env)
     = map (\<lambda>s. braces_sub (env_get env) (dollar_sub (env_get env) s)) (strings_of c)"
proof (induction c)
  case (CMapping kvs)
  have "strings_of (expand (snd kv) env)
          = map (\<lambda>s. braces_sub (env_get env) (dollar_sub (env_get env) s)) (strings_of (snd kv))"
    if "kv \<in> set kvs" for kv
    using CMapping [of kv "snd kv"] that by (cases kv) auto
  then show ?case
    by (simp add: comp_def case_prod_beta map_concat cong: map_cong)
next
  case (CList vs)
  then show ?case by (simp add: comp_def map_concat cong: map_cong)
next
  case (CTuple vs)
  then show ?case by (simp add: comp_def map_concat cong: map_cong)
qed simp_all

lemma plain_strings_free:
  assumes "\<forall>s \<in> set (strings_of c). \<exists>segs. s = concat (map render segs) \<and> list_all (plain_segment env) segs"
  shows "\<forall>s \<in> set (strings_of (expand c env)). placeholder_free s"
proof
  fix s' assume "s' \<in> set (strings_of (expand c env))"
  then obtain s where s: "s \<in> set (strings_of c)"
    and s': "s' = braces_sub (env_get env) (dollar_sub (env_get env) s)"
    unfolding strings_of_expand by auto
  from assms s obtain segs where segs: "s = concat (map render segs)"
    "list_all (plain_segment env) segs" by auto
  from expand_segments [OF segs(2)] s' segs(1) have "inert s'" by simp
  then show "placeholder_free s'" by (rule inert_placeholder_free)
qed

text \<open>
  C6 (as amended): when no pattern matches any more in any string scalar of the expanded
  configuration, expanding it again against the same environment gives the identical
  result. That is so for every configuration whose string scalars are made of
  placeholders and of literal text in which no opening brace follows a dollar sign or
  precedes a character of a name and which ends in neither, when the values of the names
  have neither an opening brace nor a dollar sign. \<^verbatim>\<open>_expand\<close> only reads the
  environment: it returns the new configuration and nothing else.
\<close>

theorem C6_expand_idempotent:
  "((\<forall>s \<in> set (strings_of (expand c env)). placeholder_free s) \<longrightarrow>
      expand (expand c env) env = expand c env) \<and>
   ((\<forall>s \<in> set (strings_of c).
        \<exists>segs. s = concat (map render segs) \<and> list_all (plain_segment env) segs) \<longrightarrow>
      (\<forall>s \<in> set (strings_of (expand c env)). placeholder_free s) \<and>
      expand (expand c env) env = expand c env)"
proof (intro conjI impI)
  assume "\<forall>s \<in> set (strings_of (expand c env)). placeholder_free s"
  then show "expand (expand c env) env = expand c env" by (rule expand_fixed)
next
  assume a: "\<forall>s \<in> set (strings_of c).
        \<exists>segs. s = concat (map render segs) \<and> list_all (plain_segment env) segs"
  then show free: "\<forall>s \<in> set (strings_of (expand c env)). placeholder_free s"
    by (rule plain_strings_free)
  then show "expand (expand c env) env = expand c env" by (rule expand_fixed)
qed

theorem C6_expand_idempotent_witness:
  "expand config_literal env_home = CMapping [(''note'', CList [CStr ''x { y /root/7'', COther 3])] \<and>
   expand (expand config_literal env_home) env_home = expand config_literal env_home"
proof -
  have val: "expand config_literal env_home
               = CMapping [(''note'', CList [CStr ''x { y /root/7'', COther 3])]"
    by (simp add: config_literal_def env_home_def env_get_def match_dollar_def match_braces_def
        word_char_def)
  have strs: "strings_of config_literal = [''x { y ${HOME}/{RUN}'']"
    by (simp add: config_literal_def)
  have segs: "''x { y ${HOME}/{RUN}''
                 = concat (map render [Lit ''x { y '', Dollar ''HOME'', Lit ''/'', Brace ''RUN''])"
    by simp
  have plain: "list_all (plain_segment env_home)
                 [Lit ''x { y '', Dollar ''HOME'', Lit ''/'', Brace ''RUN'']"
    by (simp add: env_home_def env_get_def word_char_def clean_value_def)
  have "\<exists>sgs. ''x { y ${HOME}/{RUN}'' = concat (map render sgs) \<and>
          list_all (plain_segment env_home) sgs"
    using segs plain by (intro exI [of _ "[Lit ''x { y '', Dollar ''HOME'', Lit ''/'', Brace ''RUN'']"] conjI)
  then have "\<forall>s \<in> set (strings_of config_literal).
          \<exists>segs. s = concat (map render segs) \<and> list_all (plain_segment env_home) segs"
    unfolding strs by simp
  with C6_expand_idempotent [of config_literal env_home]
  have "expand (expand config_literal env_home) env_home = expand config_literal env_home"
    by (elim conjE impE) simp_all
  with val show ?thesis by (intro conjI)
qed

text \<open>
  C6 as stated fails: the text left by one expansion can itself be a placeholder, which
  a second expansion replaces.
\<close>

theorem C6_not_idempotent_counterexample:
  "expand (CStr ''{{A}B}'' :: nat config) env_b = CStr ''{B}'' \<and>
   expand (expand (CStr ''{{A}B}'' :: nat config) env_b) env_b = CStr ''x'' \<and>
   expand (expand (CStr ''{{A}B}'' :: nat config) env_b) env_b
     \<noteq> expand (CStr ''{{A}B}'' :: nat config) env_b"
  by (simp add: env_b_def env_get_def match_dollar_def match_braces_def word_char_def)

section \<open>Properties of the extract job\<close>







section \<open>Histories of a run\<close>

lemma create_jobs_pending: "j \<in> set (create_jobs cfg) \<Longrightarrow> status j = Pending"
  by (auto simp: create_jobs_def Job_def)

lemma job_kind_of_error: "job_kind_of rt stg = Inl e \<Longrightarrow> e = CannotDetermineJobType stg"
  by (auto simp: job_kind_of_def Let_def split: if_splits)

text \<open>
  What a history says about one job: the values written to its status, in order, how
  many times its name was added to the completed set, and how many times one of the
  \<^verbatim>\<open>executor.execute_..._job\<close> was called with it; and the jobs that were executed, in
  order.
\<close>

fun status_writes :: "string \<Rightarrow> event list \<Rightarrow> job_status list" where
  "status_writes nm [] = []"
| "status_writes nm (StatusSet m s # evs) =
     (if m = nm then s # status_writes nm evs else status_writes nm evs)"
| "status_writes nm (ev # evs) = status_writes nm evs"

definition added_count :: "string \<Rightarrow> event list \<Rightarrow> nat" where
  "added_count nm evs = length (filter (\<lambda>ev. ev = CompletedAdd nm) evs)"

fun executed_jobs :: "event list \<Rightarrow> (string \<times> job_kind) list" where
  "executed_jobs [] = []"
| "executed_jobs (Executed nm kind # evs) = (nm, kind) # executed_jobs evs"
| "executed_jobs (ev # evs) = executed_jobs evs"

definition executions :: "string \<Rightarrow> event list \<Rightarrow> nat" where
  "executions nm evs = length (filter (\<lambda>p. fst p = nm) (executed_jobs evs))"

text \<open>
  \<open>wrote \<sigma> evs \<sigma>'\<close>: the state \<open>\<sigma>'\<close> is the state \<open>\<sigma>\<close> after the events \<open>evs\<close>, as far
  as the jobs, the completed set and the history go.
\<close>

definition wrote :: "('w, 'c) run_state \<Rightarrow> event list \<Rightarrow> ('w, 'c) run_state \<Rightarrow> bool" where
  "wrote \<sigma> evs \<sigma>' \<longleftrightarrow>
     history \<sigma>' = history \<sigma> @ evs \<and>
     completed_jobs \<sigma>' = completed_jobs \<sigma> \<union> {nm. CompletedAdd nm \<in> set evs} \<and>
     dict_values (jobs \<sigma>') =
       map (\<lambda>j. j\<lparr>status := last (status j # status_writes (name j) evs)\<rparr>) (dict_values (jobs \<sigma>))"

lemma status_writes_append:
  "status_writes nm (xs @ ys) = status_writes nm xs @ status_writes nm ys"
  by (induction nm xs rule: status_writes.induct) auto

lemma executed_jobs_append: "executed_jobs (xs @ ys) = executed_jobs xs @ executed_jobs ys"
  by (induction xs rule: executed_jobs.induct) auto

lemma executions_append: "executions nm (xs @ ys) = executions nm xs + executions nm ys"
  by (simp add: executions_def executed_jobs_append)

lemma added_count_append: "added_count nm (xs @ ys) = added_count nm xs + added_count nm ys"
  by (simp add: added_count_def)

lemma added_count_zero: "CompletedAdd nm \<notin> set evs \<Longrightarrow> added_count nm evs = 0"
  by (induction evs) (auto simp: added_count_def)

lemma last_last: "last (last (a # xs) # ys) = last (a # xs @ ys)"
  by (cases ys) auto

lemma wrote_refl: "wrote \<sigma> [] \<sigma>"
  by (simp add: wrote_def)

lemma wrote_trans:
  assumes "wrote \<sigma> evs1 \<sigma>1" and "wrote \<sigma>1 evs2 \<sigma>2"
  shows "wrote \<sigma> (evs1 @ evs2) \<sigma>2"
proof -
  from assms have h: "history \<sigma>2 = history \<sigma> @ evs1 @ evs2" by (simp add: wrote_def)
  from assms have c: "completed_jobs \<sigma>2 = completed_jobs \<sigma> \<union> {nm. CompletedAdd nm \<in> set (evs1 @ evs2)}"
    by (auto simp: wrote_def)
  from assms have "dict_values (jobs \<sigma>2) =
       map (\<lambda>j. j\<lparr>status := last (status j # status_writes (name j) evs2)\<rparr>)
         (map (\<lambda>j. j\<lparr>status := last (status j # status_writes (name j) evs1)\<rparr>) (dict_values (jobs \<sigma>)))"
    by (simp add: wrote_def)
  then have v: "dict_values (jobs \<sigma>2) =
       map (\<lambda>j. j\<lparr>status := last (status j # status_writes (name j) (evs1 @ evs2))\<rparr>) (dict_values (jobs \<sigma>))"
    by (simp add: comp_def status_writes_append last_last del: last.simps)
  from h c v show ?thesis by (simp add: wrote_def)
qed

lemma wrote_same:
  "wrote \<sigma> evs \<sigma>1 \<Longrightarrow> history \<sigma>2 = history \<sigma>1 \<Longrightarrow> completed_jobs \<sigma>2 = completed_jobs \<sigma>1 \<Longrightarrow>
     jobs \<sigma>2 = jobs \<sigma>1 \<Longrightarrow> wrote \<sigma> evs \<sigma>2"
  by (simp add: wrote_def)

lemma wrote_set_status: "wrote \<sigma> [StatusSet nm s] (set_status nm s \<sigma>)"
proof -
  have "dict_values (jobs (set_status nm s \<sigma>)) =
          map (\<lambda>j. j\<lparr>status := last (status j # status_writes (name j) [StatusSet nm s])\<rparr>)
            (dict_values (jobs \<sigma>))"
    unfolding values_set_status rewritten_def by (rule map_cong) auto
  then show ?thesis by (simp add: wrote_def) (simp add: set_status_def)
qed

lemma wrote_add_completed: "wrote \<sigma> [CompletedAdd nm] (add_completed nm \<sigma>)"
  by (auto simp: wrote_def add_completed_def)

lemma wrote_caught: "wrote \<sigma> [Caught nm e] (caught nm e \<sigma>)"
  by (auto simp: wrote_def caught_def)

lemma wrote_executed: "wrote \<sigma> [Executed nm kind] (executed nm kind \<sigma>)"
  by (auto simp: wrote_def executed_def)

lemma wrote_snoc: "wrote \<sigma> evs \<sigma>1 \<Longrightarrow> wrote \<sigma>1 [ev] \<sigma>2 \<Longrightarrow> wrote \<sigma> (evs @ [ev]) \<sigma>2"
  by (rule wrote_trans)

text \<open>
  The ways through one call of \<^verbatim>\<open>executor.execute_..._job\<close>, as the events they append:
  the job returns; it raises an exception of class \<^verbatim>\<open>Exception\<close>; it raises another
  exception.
\<close>

lemma execute_job_effect:
  assumes "execute_job ex kind j \<sigma> = (r, \<sigma>')"
  shows "(r = None \<and>
          wrote \<sigma> [Executed (name j) kind, StatusSet (name j) Running, StatusSet (name j) Success] \<sigma>') \<or>
         (\<exists>e. r = Some e \<and> is_Exception e \<and>
          wrote \<sigma> [Executed (name j) kind, StatusSet (name j) Running, StatusSet (name j) Failed] \<sigma>') \<or>
         (\<exists>e. r = Some e \<and> \<not> is_Exception e \<and>
          wrote \<sigma> [Executed (name j) kind, StatusSet (name j) Running] \<sigma>')"
proof -
  let ?\<sigma>0 = "executed (name j) kind \<sigma>"
  let ?\<sigma>1 = "set_status (name j) Running ?\<sigma>0"
  let ?eff = "ex kind j (executor_duckdb_con ?\<sigma>1) (world ?\<sigma>1)"
  let ?\<sigma>2 = "?\<sigma>1\<lparr>world := world_after ?eff, connections := connections ?\<sigma>1 @ conn_actions ?eff\<rparr>"
  have "wrote \<sigma> ([Executed (name j) kind] @ [StatusSet (name j) Running]) ?\<sigma>1"
    using wrote_executed wrote_set_status by (rule wrote_trans)
  then have w1: "wrote \<sigma> [Executed (name j) kind, StatusSet (name j) Running] ?\<sigma>1" by simp
  have w2: "wrote \<sigma> [Executed (name j) kind, StatusSet (name j) Running] \<tau>"
    if "history \<tau> = history ?\<sigma>1" "completed_jobs \<tau> = completed_jobs ?\<sigma>1" "jobs \<tau> = jobs ?\<sigma>1" for \<tau>
    using w1 that by (rule wrote_same)
  have w3: "wrote \<sigma> [Executed (name j) kind, StatusSet (name j) Running, StatusSet (name j) s]
              (set_status (name j) s \<tau>)"
    if "history \<tau> = history ?\<sigma>1" "completed_jobs \<tau> = completed_jobs ?\<sigma>1" "jobs \<tau> = jobs ?\<sigma>1" for \<tau> s
  proof -
    have "wrote \<sigma> ([Executed (name j) kind, StatusSet (name j) Running] @ [StatusSet (name j) s])
            (set_status (name j) s \<tau>)"
      using w2 [OF that] wrote_set_status by (rule wrote_trans)
    then show ?thesis by simp
  qed
  show ?thesis
  proof (cases "outcome ?eff")
    case None
    let ?\<tau> = "if kind = TransformJob then ?\<sigma>2\<lparr>executor_duckdb_con := ctx_duckdb ?eff\<rparr> else ?\<sigma>2"
    from None assms have r: "r = None" and \<sigma>': "\<sigma>' = set_status (name j) Success ?\<tau>"
      by (simp_all add: execute_job_def Let_def)
    have "wrote \<sigma> [Executed (name j) kind, StatusSet (name j) Running, StatusSet (name j) Success] \<sigma>'"
      unfolding \<sigma>' by (rule w3) simp_all
    with r show ?thesis by simp
  next
    case (Some e)
    show ?thesis
    proof (cases "is_Exception e")
      case True
      with Some assms have r: "r = Some e" and \<sigma>': "\<sigma>' = set_status (name j) Failed ?\<sigma>2"
        by (simp_all add: execute_job_def Let_def)
      have "wrote \<sigma> [Executed (name j) kind, StatusSet (name j) Running, StatusSet (name j) Failed] \<sigma>'"
        unfolding \<sigma>' by (rule w3) simp_all
      with r True show ?thesis by simp
    next
      case False
      with Some assms have r: "r = Some e" and \<sigma>': "\<sigma>' = ?\<sigma>2"
        by (simp_all add: execute_job_def Let_def)
      have "wrote \<sigma> [Executed (name j) kind, StatusSet (name j) Running] \<sigma>'"
        unfolding \<sigma>' by (rule w2) simp_all
      with r False show ?thesis by simp
    qed
  qed
qed

text \<open>
  The six ways through the \<^verbatim>\<open>try\<close> and the \<^verbatim>\<open>except\<close> clause for one job, as the events
  they append: the job returns; it raises and the exception is raised again; it raises
  under the continue policy; it raises an exception that is not of class \<^verbatim>\<open>Exception\<close>;
  the job type cannot be determined, with the two endings of the \<^verbatim>\<open>except\<close> clause.
\<close>

definition run_shape ::
  "string \<Rightarrow> error + job_kind \<Rightarrow> string \<Rightarrow> error option \<Rightarrow> event list \<Rightarrow> bool" where
  "run_shape nm d on_error r evs \<longleftrightarrow>
     (\<exists>k. d = Inr k \<and> r = None \<and>
          evs = [Executed nm k, StatusSet nm Running, StatusSet nm Success, CompletedAdd nm]) \<or>
     (\<exists>k e. d = Inr k \<and> is_Exception e \<and> on_error \<noteq> ''continue'' \<and> r = Some e \<and>
          evs = [Executed nm k, StatusSet nm Running, StatusSet nm Failed, Caught nm e]) \<or>
     (\<exists>k e. d = Inr k \<and> is_Exception e \<and> on_error = ''continue'' \<and> r = None \<and>
          evs = [Executed nm k, StatusSet nm Running, StatusSet nm Failed, Caught nm e,
                 StatusSet nm Failed, CompletedAdd nm]) \<or>
     (\<exists>k e. d = Inr k \<and> \<not> is_Exception e \<and> r = Some e \<and>
          evs = [Executed nm k, StatusSet nm Running]) \<or>
     (\<exists>e. d = Inl e \<and> on_error \<noteq> ''continue'' \<and> r = Some e \<and> evs = [Caught nm e]) \<or>
     (\<exists>e. d = Inl e \<and> on_error = ''continue'' \<and> r = None \<and>
          evs = [Caught nm e, StatusSet nm Failed, CompletedAdd nm])"

lemma policy_effect_raise:
  "wrote \<sigma> evs \<sigma>1 \<Longrightarrow> wrote \<sigma> (evs @ [Caught nm e]) (caught nm e \<sigma>1)"
  by (erule wrote_trans) (rule wrote_caught)

lemma policy_effect_continue:
  assumes "wrote \<sigma> evs \<sigma>1"
  shows "wrote \<sigma> (evs @ [Caught nm e, StatusSet nm Failed, CompletedAdd nm])
           (add_completed nm (set_status nm Failed (caught nm e \<sigma>1)))"
proof -
  have "wrote \<sigma> (evs @ [Caught nm e]) (caught nm e \<sigma>1)"
    using assms by (rule policy_effect_raise)
  then have "wrote \<sigma> ((evs @ [Caught nm e]) @ [StatusSet nm Failed]) (set_status nm Failed (caught nm e \<sigma>1))"
    using wrote_set_status by (rule wrote_trans)
  then have "wrote \<sigma> (((evs @ [Caught nm e]) @ [StatusSet nm Failed]) @ [CompletedAdd nm])
          (add_completed nm (set_status nm Failed (caught nm e \<sigma>1)))"
    using wrote_add_completed by (rule wrote_trans)
  then show ?thesis by simp
qed

lemma run_job_except:
  assumes "attempt ex stg j \<sigma> = (Some e, \<sigma>1)" and "is_Exception e"
  shows "run_job ex on_error stg j \<sigma> =
           (if on_error = ''continue''
            then (None, add_completed (name j) (set_status (name j) Failed (caught (name j) e \<sigma>1)))
            else (Some e, caught (name j) e \<sigma>1))"
  using assms by (simp add: run_job_def Let_def)

lemma run_job_effect:
  assumes run: "run_job ex on_error stg j \<sigma> = (r, \<sigma>')"
  shows "\<exists>evs. run_shape (name j) (job_kind_of (runner_type j) stg) on_error r evs \<and> wrote \<sigma> evs \<sigma>'"
proof (cases "job_kind_of (runner_type j) stg")
  case (Inl e)
  then have a: "attempt ex stg j \<sigma> = (Some e, \<sigma>)" by (simp add: attempt_def)
  from Inl have e: "is_Exception e" by (auto dest: job_kind_of_error)
  note pe = policy_effect_raise [OF wrote_refl, of \<sigma> "name j" e]
    policy_effect_continue [OF wrote_refl, of \<sigma> "name j" e]
  show ?thesis
  proof (cases "on_error = ''continue''")
    case True
    with run run_job_except [OF a e, of on_error]
    have "r = None" "\<sigma>' = add_completed (name j) (set_status (name j) Failed (caught (name j) e \<sigma>))"
      by simp_all
    with pe(2) True Inl show ?thesis
      by (intro exI [of _ "[Caught (name j) e, StatusSet (name j) Failed, CompletedAdd (name j)]"])
         (simp add: run_shape_def)
  next
    case False
    with run run_job_except [OF a e, of on_error]
    have "r = Some e" "\<sigma>' = caught (name j) e \<sigma>" by simp_all
    with pe(1) False Inl show ?thesis
      by (intro exI [of _ "[Caught (name j) e]"]) (simp add: run_shape_def)
  qed
next
  case (Inr kind)
  let ?n = "name j"
  obtain r1 \<sigma>1 where x: "execute_job ex kind j \<sigma> = (r1, \<sigma>1)"
    by (cases "execute_job ex kind j \<sigma>")
  from execute_job_effect [OF x] consider
      (ok) "r1 = None" "wrote \<sigma> [Executed ?n kind, StatusSet ?n Running, StatusSet ?n Success] \<sigma>1"
    | (exc) e where "r1 = Some e" "is_Exception e"
        "wrote \<sigma> [Executed ?n kind, StatusSet ?n Running, StatusSet ?n Failed] \<sigma>1"
    | (esc) e where "r1 = Some e" "\<not> is_Exception e"
        "wrote \<sigma> [Executed ?n kind, StatusSet ?n Running] \<sigma>1"
    by auto
  then show ?thesis
  proof cases
    case ok
    with Inr x run have r: "r = None" and \<sigma>': "\<sigma>' = add_completed ?n \<sigma>1"
      by (simp_all add: run_job_def attempt_def)
    have "wrote \<sigma> ([Executed ?n kind, StatusSet ?n Running, StatusSet ?n Success] @ [CompletedAdd ?n]) \<sigma>'"
      unfolding \<sigma>' using ok(2) wrote_add_completed by (rule wrote_trans)
    with r Inr show ?thesis
      by (intro exI [of _ "[Executed ?n kind, StatusSet ?n Running, StatusSet ?n Success, CompletedAdd ?n]"])
         (simp add: run_shape_def)
  next
    case exc
    with Inr x have a: "attempt ex stg j \<sigma> = (Some e, \<sigma>1)" by (simp add: attempt_def)
    note pe = policy_effect_raise [OF exc(3), of ?n e] policy_effect_continue [OF exc(3), of ?n e]
    show ?thesis
    proof (cases "on_error = ''continue''")
      case True
      with run run_job_except [OF a exc(2), of on_error]
      have "r = None" "\<sigma>' = add_completed ?n (set_status ?n Failed (caught ?n e \<sigma>1))"
        by simp_all
      with pe(2) True Inr exc(2) show ?thesis
        by (intro exI [of _ "[Executed ?n kind, StatusSet ?n Running, StatusSet ?n Failed,
              Caught ?n e, StatusSet ?n Failed, CompletedAdd ?n]"])
           (simp add: run_shape_def)
    next
      case False
      with run run_job_except [OF a exc(2), of on_error]
      have "r = Some e" "\<sigma>' = caught ?n e \<sigma>1" by simp_all
      with pe(1) False Inr exc(2) show ?thesis
        by (intro exI [of _ "[Executed ?n kind, StatusSet ?n Running, StatusSet ?n Failed, Caught ?n e]"])
           (simp add: run_shape_def)
    qed
  next
    case esc
    with Inr x have a: "attempt ex stg j \<sigma> = (Some e, \<sigma>1)" by (simp add: attempt_def)
    with run esc(2) have "r = Some e" "\<sigma>' = \<sigma>1" by (simp_all add: run_job_def)
    with esc Inr show ?thesis
      by (intro exI [of _ "[Executed ?n kind, StatusSet ?n Running]"]) (simp add: run_shape_def)
  qed
qed

definition job_names :: "('w, 'c) run_state \<Rightarrow> string list" where
  "job_names \<sigma> = map name (dict_values (jobs \<sigma>))"

lemma job_names_wrote: "wrote \<sigma> evs \<sigma>' \<Longrightarrow> job_names \<sigma>' = job_names \<sigma>"
  by (simp add: job_names_def wrote_def comp_def)

text \<open>
  \<open>extends \<sigma> \<sigma>'\<close>: the later state has the same jobs, a completed set that
  includes the earlier one, and a history that begins with the earlier one.
\<close>

definition extends :: "('w, 'c) run_state \<Rightarrow> ('w, 'c) run_state \<Rightarrow> bool" where
  "extends \<sigma> \<sigma>' \<longleftrightarrow>
     job_names \<sigma>' = job_names \<sigma> \<and> completed_jobs \<sigma> \<subseteq> completed_jobs \<sigma>' \<and>
     prefix (history \<sigma>) (history \<sigma>')"

lemma extends_refl [simp]: "extends \<sigma> \<sigma>"
  by (simp add: extends_def)

lemma extends_trans: "extends \<sigma> \<sigma>1 \<Longrightarrow> extends \<sigma>1 \<sigma>2 \<Longrightarrow> extends \<sigma> \<sigma>2"
  by (auto simp: extends_def intro: prefix_order.order_trans)

lemma wrote_extends: "wrote \<sigma> evs \<sigma>' \<Longrightarrow> extends \<sigma> \<sigma>'"
  using job_names_wrote [of \<sigma> evs \<sigma>'] by (simp add: extends_def) (simp add: wrote_def)

lemma run_job_extends: "run_job ex on_error stg j \<sigma> = (r, \<sigma>') \<Longrightarrow> extends \<sigma> \<sigma>'"
  using run_job_effect [of ex on_error stg j \<sigma> r \<sigma>'] by (auto intro: wrote_extends)

lemma run_ready_extends: "run_ready ex on_error stg js \<sigma> = (r, \<sigma>') \<Longrightarrow> extends \<sigma> \<sigma>'"
proof (induction js arbitrary: \<sigma>)
  case Nil
  then show ?case by simp
next
  case (Cons j js)
  obtain r1 \<sigma>1 where j: "run_job ex on_error stg j \<sigma> = (r1, \<sigma>1)"
    by (cases "run_job ex on_error stg j \<sigma>")
  have 1: "extends \<sigma> \<sigma>1" using j by (rule run_job_extends)
  show ?case
  proof (cases r1)
    case None
    with Cons.prems j have "run_ready ex on_error stg js \<sigma>1 = (r, \<sigma>')" by simp
    from Cons.IH [OF this] 1 show ?thesis by (rule extends_trans [rotated])
  next
    case (Some e)
    with Cons.prems j 1 show ?thesis by simp
  qed
qed

lemma run_stage_extends: "run_stage ex on_error stg \<sigma> = (r, \<sigma>') \<Longrightarrow> extends \<sigma> \<sigma>'"
proof (induction ex on_error stg \<sigma> rule: run_stage.induct)
  case (1 ex on_error stg \<sigma>)
  let ?ready = "get_ready_jobs (jobs \<sigma>) stg (completed_jobs \<sigma>)"
  show ?case
  proof (cases "?ready = []")
    case True
    with "1.prems" show ?thesis by (simp add: run_stage.simps)
  next
    case False
    obtain r1 \<sigma>1 where rr: "run_ready ex on_error stg ?ready \<sigma> = (r1, \<sigma>1)"
      by (cases "run_ready ex on_error stg ?ready \<sigma>")
    have e1: "extends \<sigma> \<sigma>1" using rr by (rule run_ready_extends)
    show ?thesis
    proof (cases r1)
      case None
      with False rr "1.prems" have "run_stage ex on_error stg \<sigma>1 = (r, \<sigma>')"
        by (simp add: run_stage.simps [of ex on_error stg \<sigma>])
      with "1.IH" [OF refl False rr [symmetric] None] have "extends \<sigma>1 \<sigma>'" by simp
      with e1 show ?thesis by (rule extends_trans)
    next
      case (Some e)
      with False rr "1.prems" e1 show ?thesis
        by (simp add: run_stage.simps [of ex on_error stg \<sigma>])
    qed
  qed
qed

lemma run_stages_extends: "run_stages ex on_error stgs \<sigma> = (r, \<sigma>') \<Longrightarrow> extends \<sigma> \<sigma>'"
proof (induction stgs arbitrary: \<sigma>)
  case Nil
  then show ?case by simp
next
  case (Cons stg stgs)
  show ?case
  proof (cases "filter (\<lambda>j. stage j = stg) (dict_values (jobs \<sigma>)) = []")
    case True
    with Cons.prems have "run_stages ex on_error stgs \<sigma> = (r, \<sigma>')" by simp
    then show ?thesis by (rule Cons.IH)
  next
    case False
    obtain r1 \<sigma>1 where rs: "run_stage ex on_error stg \<sigma> = (r1, \<sigma>1)"
      by (cases "run_stage ex on_error stg \<sigma>")
    have e1: "extends \<sigma> \<sigma>1" using rs by (rule run_stage_extends)
    show ?thesis
    proof (cases r1)
      case None
      with False rs Cons.prems have "run_stages ex on_error stgs \<sigma>1 = (r, \<sigma>')" by simp
      from e1 Cons.IH [OF this] show ?thesis by (rule extends_trans)
    next
      case (Some e)
      with False rs Cons.prems e1 show ?thesis by simp
    qed
  qed
qed

text \<open>
  A job that \<^verbatim>\<open>get_ready_jobs\<close> returns in a state. A property that every run of such
  a job keeps is kept by the loop over the ready jobs, by the loop of a stage and by the
  loop over the stages (\<open>run_ready_lift\<close>, \<open>run_stage_lift\<close>, \<open>run_stages_lift\<close>).
\<close>

definition runnable :: "string \<Rightarrow> ('w, 'c) run_state \<Rightarrow> job \<Rightarrow> bool" where
  "runnable stg \<sigma> j \<longleftrightarrow>
     j \<in> set (dict_values (jobs \<sigma>)) \<and> stage j = stg \<and> status j = Pending \<and>
     set (depends_on j) \<subseteq> completed_jobs \<sigma>"


lemma run_shape_other:
  "run_shape nm d on_error r evs \<Longrightarrow> m \<noteq> nm \<Longrightarrow>
     status_writes m evs = [] \<and> CompletedAdd m \<notin> set evs \<and> (\<forall>e. Caught m e \<notin> set evs) \<and>
     executions m evs = 0"
  by (auto simp: run_shape_def executions_def)

lemma wrote_member:
  assumes "wrote \<sigma> evs \<sigma>'" and "j' \<in> set (dict_values (jobs \<sigma>'))"
  obtains j0 where "j0 \<in> set (dict_values (jobs \<sigma>))"
    and "j' = j0\<lparr>status := last (status j0 # status_writes (name j0) evs)\<rparr>"
proof -
  from assms have "j' \<in> (\<lambda>x. x\<lparr>status := last (status x # status_writes (name x) evs)\<rparr>) `
                 set (dict_values (jobs \<sigma>))"
    by (simp add: wrote_def)
  then obtain j0 where "j' = j0\<lparr>status := last (status j0 # status_writes (name j0) evs)\<rparr>"
    and "j0 \<in> set (dict_values (jobs \<sigma>))" by (rule imageE)
  with that show thesis by simp
qed

lemma wrote_image:
  assumes "wrote \<sigma> evs \<sigma>'" and "j0 \<in> set (dict_values (jobs \<sigma>))"
  shows "j0\<lparr>status := last (status j0 # status_writes (name j0) evs)\<rparr> \<in> set (dict_values (jobs \<sigma>'))"
proof -
  let ?f = "\<lambda>x. x\<lparr>status := last (status x # status_writes (name x) evs)\<rparr>"
  have "?f j0 \<in> ?f ` set (dict_values (jobs \<sigma>))" using assms(2) by (rule imageI)
  with assms(1) show ?thesis by (simp add: wrote_def)
qed

lemma run_job_frame:
  assumes "run_job ex on_error stg j \<sigma> = (r, \<sigma>')"
    and "j' \<in> set (dict_values (jobs \<sigma>))" and "name j' \<noteq> name j"
  shows "j' \<in> set (dict_values (jobs \<sigma>'))"
proof -
  from run_job_effect [OF assms(1)]
  obtain evs where shape: "run_shape (name j) (job_kind_of (runner_type j) stg) on_error r evs"
    and w: "wrote \<sigma> evs \<sigma>'" by auto
  from run_shape_other [OF shape assms(3)] have "status_writes (name j') evs = []" by simp
  with wrote_image [OF w assms(2)] show ?thesis by simp
qed

lemma runnable_after:
  assumes "run_job ex on_error stg j \<sigma> = (r, \<sigma>')"
    and "runnable stg \<sigma> j'" and "name j' \<noteq> name j"
  shows "runnable stg \<sigma>' j'"
proof -
  have "extends \<sigma> \<sigma>'" using assms(1) by (rule run_job_extends)
  then have sub: "completed_jobs \<sigma> \<subseteq> completed_jobs \<sigma>'" by (simp add: extends_def)
  from assms(2) have a: "j' \<in> set (dict_values (jobs \<sigma>))" "stage j' = stg" "status j' = Pending"
    "set (depends_on j') \<subseteq> completed_jobs \<sigma>" by (simp_all add: runnable_def)
  from assms(1) a(1) assms(3) have "j' \<in> set (dict_values (jobs \<sigma>'))" by (rule run_job_frame)
  moreover from a(4) sub have "set (depends_on j') \<subseteq> completed_jobs \<sigma>'" by (rule subset_trans)
  ultimately show ?thesis using a(2,3) by (simp add: runnable_def)
qed

lemma run_ready_lift:
  assumes step: "\<And>stg j \<sigma> r \<sigma>'. I None \<sigma> \<Longrightarrow> distinct (job_names \<sigma>) \<Longrightarrow> runnable stg \<sigma> j \<Longrightarrow>
            run_job ex on_error stg j \<sigma> = (r, \<sigma>') \<Longrightarrow> I r \<sigma>'"
    and "I None \<sigma>" and "distinct (job_names \<sigma>)" and "distinct (map name js)"
    and "\<forall>j \<in> set js. runnable stg \<sigma> j"
    and "run_ready ex on_error stg js \<sigma> = (r, \<sigma>')"
  shows "I r \<sigma>'"
  using assms(2-)
proof (induction js arbitrary: \<sigma>)
  case Nil
  then show ?case by simp
next
  case (Cons j js)
  obtain r1 \<sigma>1 where j: "run_job ex on_error stg j \<sigma> = (r1, \<sigma>1)"
    by (cases "run_job ex on_error stg j \<sigma>")
  have I1: "I r1 \<sigma>1"
    using Cons.prems(1,2) _ j by (rule step) (use Cons.prems(4) in simp)
  show ?case
  proof (cases r1)
    case None
    with Cons.prems j have rest: "run_ready ex on_error stg js \<sigma>1 = (r, \<sigma>')" by simp
    have "extends \<sigma> \<sigma>1" using j by (rule run_job_extends)
    then have d1: "distinct (job_names \<sigma>1)" using Cons.prems(2) by (simp add: extends_def)
    have "\<forall>j' \<in> set js. runnable stg \<sigma>1 j'"
    proof
      fix j' assume j': "j' \<in> set js"
      then have "name j' \<in> name ` set js" by (rule imageI)
      moreover from Cons.prems(3) have "name j \<notin> name ` set js" by simp
      ultimately have "name j' \<noteq> name j" by auto
      moreover from j' Cons.prems(4) have "runnable stg \<sigma> j'" by simp
      ultimately show "runnable stg \<sigma>1 j'" using runnable_after [OF j] by simp
    qed
    with I1 None d1 Cons.prems(3) rest show ?thesis
      by (intro Cons.IH) simp_all
  next
    case (Some e)
    with Cons.prems j I1 show ?thesis by simp
  qed
qed

lemma ready_jobs_runnable:
  "j \<in> set (get_ready_jobs (jobs \<sigma>) stg (completed_jobs \<sigma>)) \<Longrightarrow> runnable stg \<sigma> j"
  by (simp add: get_ready_jobs_filter runnable_def)

lemma ready_jobs_distinct:
  "distinct (job_names \<sigma>) \<Longrightarrow> distinct (map name (get_ready_jobs (jobs \<sigma>) stg (completed_jobs \<sigma>)))"
  by (simp add: get_ready_jobs_filter job_names_def distinct_map_filter)

lemma run_stage_lift:
  assumes "\<And>stg j \<sigma> r \<sigma>'. I None \<sigma> \<Longrightarrow> distinct (job_names \<sigma>) \<Longrightarrow> runnable stg \<sigma> j \<Longrightarrow>
            run_job ex on_error stg j \<sigma> = (r, \<sigma>') \<Longrightarrow> I r \<sigma>'"
    and "I None \<sigma>" and "distinct (job_names \<sigma>)"
    and "run_stage ex on_error stg \<sigma> = (r, \<sigma>')"
  shows "I r \<sigma>'"
  using assms
proof (induction ex on_error stg \<sigma> rule: run_stage.induct)
  case (1 ex on_error stg \<sigma>)
  note step = "1.prems"(1) and inv = "1.prems"(2) and dist = "1.prems"(3) and run = "1.prems"(4)
  let ?ready = "get_ready_jobs (jobs \<sigma>) stg (completed_jobs \<sigma>)"
  show ?case
  proof (cases "?ready = []")
    case True
    with run inv show ?thesis by (simp add: run_stage.simps)
  next
    case False
    obtain r1 \<sigma>1 where rr: "run_ready ex on_error stg ?ready \<sigma> = (r1, \<sigma>1)"
      by (cases "run_ready ex on_error stg ?ready \<sigma>")
    have all: "\<forall>j \<in> set ?ready. runnable stg \<sigma> j" by (simp add: ready_jobs_runnable)
    have I1: "I r1 \<sigma>1"
      using step inv dist ready_jobs_distinct [OF dist] all rr by (rule run_ready_lift)
    have e1: "extends \<sigma> \<sigma>1" using rr by (rule run_ready_extends)
    then have d1: "distinct (job_names \<sigma>1)" using dist by (simp add: extends_def)
    show ?thesis
    proof (cases r1)
      case None
      with False rr run have "run_stage ex on_error stg \<sigma>1 = (r, \<sigma>')"
        by (simp add: run_stage.simps [of ex on_error stg \<sigma>])
      with "1.IH" [OF refl False rr [symmetric] None step] I1 None d1 show ?thesis by simp
    next
      case (Some e)
      with False rr run I1 show ?thesis
        by (simp add: run_stage.simps [of ex on_error stg \<sigma>])
    qed
  qed
qed

lemma run_stages_lift:
  assumes step: "\<And>stg j \<sigma> r \<sigma>'. I None \<sigma> \<Longrightarrow> distinct (job_names \<sigma>) \<Longrightarrow> runnable stg \<sigma> j \<Longrightarrow>
            run_job ex on_error stg j \<sigma> = (r, \<sigma>') \<Longrightarrow> I r \<sigma>'"
    and "I None \<sigma>" and "distinct (job_names \<sigma>)"
    and "run_stages ex on_error stgs \<sigma> = (r, \<sigma>')"
  shows "I r \<sigma>'"
  using assms(2-)
proof (induction stgs arbitrary: \<sigma>)
  case Nil
  then show ?case by simp
next
  case (Cons stg stgs)
  show ?case
  proof (cases "filter (\<lambda>j. stage j = stg) (dict_values (jobs \<sigma>)) = []")
    case True
    with Cons.prems have "run_stages ex on_error stgs \<sigma> = (r, \<sigma>')" by simp
    with Cons.prems(1,2) show ?thesis by (intro Cons.IH)
  next
    case False
    obtain r1 \<sigma>1 where rs: "run_stage ex on_error stg \<sigma> = (r1, \<sigma>1)"
      by (cases "run_stage ex on_error stg \<sigma>")
    have I1: "I r1 \<sigma>1" using step Cons.prems(1,2) rs by (rule run_stage_lift)
    have "extends \<sigma> \<sigma>1" using rs by (rule run_stage_extends)
    then have d1: "distinct (job_names \<sigma>1)" using Cons.prems(2) by (simp add: extends_def)
    show ?thesis
    proof (cases r1)
      case None
      with False rs Cons.prems have "run_stages ex on_error stgs \<sigma>1 = (r, \<sigma>')" by simp
      with I1 None d1 show ?thesis by (intro Cons.IH) simp_all
    next
      case (Some e)
      with False rs Cons.prems I1 show ?thesis by simp
    qed
  qed
qed

text \<open>
  The invariant of a run. The status of every job is the last value written to it (or
  pending), the completed set holds exactly the names added, the writes to one job are
  one of six sequences, a name is added at most once and only after a write to its job,
  a job is executed at most once and not before a write to it, a job is failed without
  having been running only when its type cannot be determined and the policy is
  continue, and a job is left running only when an exception that is not of class
  \<^verbatim>\<open>Exception\<close> has left the loops.
\<close>

definition allowed_writes :: "job_status list set" where
  "allowed_writes =
     {[], [Running], [Running, Success], [Running, Failed], [Running, Failed, Failed], [Failed]}"

definition consistent :: "string \<Rightarrow> error option \<Rightarrow> ('w, 'c) run_state \<Rightarrow> bool" where
  "consistent on_error r \<sigma> \<longleftrightarrow>
     (\<forall>j \<in> set (dict_values (jobs \<sigma>)).
         status j = last (Pending # status_writes (name j) (history \<sigma>))) \<and>
     completed_jobs \<sigma> = {nm. CompletedAdd nm \<in> set (history \<sigma>)} \<and>
     (\<forall>nm. status_writes nm (history \<sigma>) \<in> allowed_writes) \<and>
     (\<forall>nm. added_count nm (history \<sigma>) \<le> 1) \<and>
     (\<forall>nm. CompletedAdd nm \<in> set (history \<sigma>) \<longrightarrow> status_writes nm (history \<sigma>) \<noteq> []) \<and>
     (\<forall>nm. executions nm (history \<sigma>) \<le> 1) \<and>
     (\<forall>nm. status_writes nm (history \<sigma>) = [] \<longrightarrow> executions nm (history \<sigma>) = 0) \<and>
     (\<forall>nm. status_writes nm (history \<sigma>) = [Failed] \<longrightarrow>
         on_error = ''continue'' \<and> executions nm (history \<sigma>) = 0 \<and>
         (\<exists>j \<in> set (dict_values (jobs \<sigma>)). name j = nm \<and>
            job_kind_of (runner_type j) (stage j) = Inl (CannotDetermineJobType (stage j)))) \<and>
     (\<forall>nm. status_writes nm (history \<sigma>) = [Running] \<longrightarrow> (\<exists>e. r = Some e \<and> \<not> is_Exception e))"

lemma allowed_pending: "ws \<in> allowed_writes \<Longrightarrow> last (Pending # ws) = Pending \<Longrightarrow> ws = []"
  by (auto simp: allowed_writes_def)

lemma run_shape_self:
  "run_shape nm d on_error r evs \<Longrightarrow>
     status_writes nm evs \<in> allowed_writes \<and> added_count nm evs \<le> 1 \<and>
     (CompletedAdd nm \<in> set evs \<longrightarrow> status_writes nm evs \<noteq> []) \<and>
     executions nm evs \<le> 1 \<and>
     (status_writes nm evs = [] \<longrightarrow> executions nm evs = 0) \<and>
     (status_writes nm evs = [Failed] \<longrightarrow>
        on_error = ''continue'' \<and> executions nm evs = 0 \<and> (\<exists>e. d = Inl e)) \<and>
     (status_writes nm evs = [Running] \<longrightarrow> (\<exists>e. r = Some e \<and> \<not> is_Exception e))"
  by (auto simp: run_shape_def allowed_writes_def added_count_def executions_def)

lemma consistent_step:
  assumes con: "consistent on_error None \<sigma>" and rdy: "runnable stg \<sigma> j"
    and run: "run_job ex on_error stg j \<sigma> = (r, \<sigma>')"
  shows "consistent on_error r \<sigma>'"
proof -
  from run_job_effect [OF run]
  obtain evs where shape: "run_shape (name j) (job_kind_of (runner_type j) stg) on_error r evs"
    and w: "wrote \<sigma> evs \<sigma>'" by auto
  let ?h = "history \<sigma>"
  from w have h': "history \<sigma>' = ?h @ evs" by (simp add: wrote_def)
  from w have c': "completed_jobs \<sigma>' = completed_jobs \<sigma> \<union> {nm. CompletedAdd nm \<in> set evs}"
    by (simp add: wrote_def)
  from rdy have j: "j \<in> set (dict_values (jobs \<sigma>))" "status j = Pending" "stage j = stg"
    by (simp_all add: runnable_def)
  from con have a: "\<forall>j \<in> set (dict_values (jobs \<sigma>)). status j = last (Pending # status_writes (name j) ?h)"
    unfolding consistent_def by (elim conjE)
  from con have b: "completed_jobs \<sigma> = {nm. CompletedAdd nm \<in> set ?h}"
    unfolding consistent_def by (elim conjE)
  from con have c: "\<forall>nm. status_writes nm ?h \<in> allowed_writes"
    unfolding consistent_def by (elim conjE)
  from con have d: "\<forall>nm. added_count nm ?h \<le> 1"
    unfolding consistent_def by (elim conjE)
  from con have e: "\<forall>nm. CompletedAdd nm \<in> set ?h \<longrightarrow> status_writes nm ?h \<noteq> []"
    unfolding consistent_def by (elim conjE)
  from con have f: "\<forall>nm. executions nm ?h \<le> 1"
    unfolding consistent_def by (elim conjE)
  from con have g: "\<forall>nm. status_writes nm ?h = [] \<longrightarrow> executions nm ?h = 0"
    unfolding consistent_def by (elim conjE)
  from con have k: "\<forall>nm. status_writes nm ?h = [Failed] \<longrightarrow>
         on_error = ''continue'' \<and> executions nm ?h = 0 \<and>
         (\<exists>j \<in> set (dict_values (jobs \<sigma>)). name j = nm \<and>
            job_kind_of (runner_type j) (stage j) = Inl (CannotDetermineJobType (stage j)))"
    unfolding consistent_def by (elim conjE)
  from con have l: "\<forall>nm. status_writes nm ?h \<noteq> [Running]"
    unfolding consistent_def by (elim conjE) simp
  from a j have "last (Pending # status_writes (name j) ?h) = Pending" by auto
  moreover from c have "status_writes (name j) ?h \<in> allowed_writes" by simp
  ultimately have fresh: "status_writes (name j) ?h = []" by (rule allowed_pending [rotated])
  with e have notadded: "CompletedAdd (name j) \<notin> set ?h" by auto
  from fresh g have notrun: "executions (name j) ?h = 0" by simp
  note self = run_shape_self [OF shape]
  have a': "\<forall>j' \<in> set (dict_values (jobs \<sigma>')).
              status j' = last (Pending # status_writes (name j') (history \<sigma>'))"
  proof
    fix j' assume "j' \<in> set (dict_values (jobs \<sigma>'))"
    with w obtain j0 where j0: "j0 \<in> set (dict_values (jobs \<sigma>))"
      and eq: "j' = j0\<lparr>status := last (status j0 # status_writes (name j0) evs)\<rparr>"
      by (rule wrote_member)
    from a j0 have "status j0 = last (Pending # status_writes (name j0) ?h)" by simp
    with eq show "status j' = last (Pending # status_writes (name j') (history \<sigma>'))"
      by (simp add: h' status_writes_append last_last del: last.simps)
  qed
  have b': "completed_jobs \<sigma>' = {nm. CompletedAdd nm \<in> set (history \<sigma>')}"
    using b by (auto simp: c' h')
  have c': "status_writes nm (history \<sigma>') \<in> allowed_writes" for nm
  proof (cases "nm = name j")
    case True
    with fresh self show ?thesis by (simp add: h' status_writes_append)
  next
    case False
    with run_shape_other [OF shape, of nm] c show ?thesis by (simp add: h' status_writes_append)
  qed
  have d': "added_count nm (history \<sigma>') \<le> 1" for nm
  proof (cases "nm = name j")
    case True
    with notadded self show ?thesis by (simp add: h' added_count_append added_count_zero)
  next
    case False
    with run_shape_other [OF shape, of nm] d show ?thesis
      by (simp add: h' added_count_append added_count_zero)
  qed
  have e': "status_writes nm (history \<sigma>') \<noteq> []" if "CompletedAdd nm \<in> set (history \<sigma>')" for nm
  proof (cases "nm = name j")
    case True
    with that notadded self show ?thesis by (simp add: h' status_writes_append)
  next
    case False
    with that run_shape_other [OF shape, of nm] e show ?thesis
      by (simp add: h' status_writes_append)
  qed
  have f': "executions nm (history \<sigma>') \<le> 1" for nm
  proof (cases "nm = name j")
    case True
    with notrun self show ?thesis by (simp add: h' executions_append)
  next
    case False
    with run_shape_other [OF shape, of nm] f show ?thesis by (simp add: h' executions_append)
  qed
  have g': "executions nm (history \<sigma>') = 0" if "status_writes nm (history \<sigma>') = []" for nm
  proof (cases "nm = name j")
    case True
    with that fresh have "status_writes (name j) evs = []" by (simp add: h' status_writes_append)
    with self notrun True show ?thesis by (simp add: h' executions_append)
  next
    case False
    with that run_shape_other [OF shape, of nm] g show ?thesis
      by (simp add: h' status_writes_append executions_append)
  qed
  have k': "on_error = ''continue'' \<and> executions nm (history \<sigma>') = 0 \<and>
         (\<exists>j \<in> set (dict_values (jobs \<sigma>')). name j = nm \<and>
            job_kind_of (runner_type j) (stage j) = Inl (CannotDetermineJobType (stage j)))"
    if fl: "status_writes nm (history \<sigma>') = [Failed]" for nm
  proof (cases "nm = name j")
    case True
    with fl fresh have "status_writes (name j) evs = [Failed]" by (simp add: h' status_writes_append)
    with self have pol: "on_error = ''continue''" and ex0: "executions (name j) evs = 0"
      and "\<exists>e. job_kind_of (runner_type j) stg = Inl e" by simp_all
    then obtain x where "job_kind_of (runner_type j) stg = Inl x" by auto
    with job_kind_of_error [OF this] j(3)
    have und: "job_kind_of (runner_type j) (stage j) = Inl (CannotDetermineJobType (stage j))" by simp
    let ?j' = "j\<lparr>status := last (status j # status_writes (name j) evs)\<rparr>"
    from wrote_image [OF w j(1)] have "?j' \<in> set (dict_values (jobs \<sigma>'))" .
    moreover have "name ?j' = nm" using True by simp
    moreover have "job_kind_of (runner_type ?j') (stage ?j') = Inl (CannotDetermineJobType (stage ?j'))"
      using und by simp
    ultimately have "\<exists>j \<in> set (dict_values (jobs \<sigma>')). name j = nm \<and>
            job_kind_of (runner_type j) (stage j) = Inl (CannotDetermineJobType (stage j))"
      by (intro bexI [of _ ?j'] conjI)
    with pol ex0 notrun True show ?thesis by (simp add: h' executions_append)
  next
    case False
    with fl run_shape_other [OF shape, of nm]
    have old: "status_writes nm ?h = [Failed]" and ex0: "executions nm evs = 0"
      by (simp_all add: h' status_writes_append)
    from k old have pol: "on_error = ''continue''" and ex1: "executions nm ?h = 0" by simp_all
    from k old obtain j0 where j0: "j0 \<in> set (dict_values (jobs \<sigma>))" "name j0 = nm"
      "job_kind_of (runner_type j0) (stage j0) = Inl (CannotDetermineJobType (stage j0))" by auto
    let ?j' = "j0\<lparr>status := last (status j0 # status_writes (name j0) evs)\<rparr>"
    from wrote_image [OF w j0(1)] have "?j' \<in> set (dict_values (jobs \<sigma>'))" .
    moreover have "name ?j' = nm" using j0(2) by simp
    moreover have "job_kind_of (runner_type ?j') (stage ?j') = Inl (CannotDetermineJobType (stage ?j'))"
      using j0(3) by simp
    ultimately have "\<exists>j \<in> set (dict_values (jobs \<sigma>')). name j = nm \<and>
            job_kind_of (runner_type j) (stage j) = Inl (CannotDetermineJobType (stage j))"
      by (intro bexI [of _ ?j'] conjI)
    with pol ex0 ex1 show ?thesis by (simp add: h' executions_append)
  qed
  have l': "\<exists>e. r = Some e \<and> \<not> is_Exception e" if rn: "status_writes nm (history \<sigma>') = [Running]" for nm
  proof (cases "nm = name j")
    case True
    with rn fresh have "status_writes (name j) evs = [Running]" by (simp add: h' status_writes_append)
    with self show ?thesis by simp
  next
    case False
    with rn run_shape_other [OF shape, of nm] have "status_writes nm ?h = [Running]"
      by (simp add: h' status_writes_append)
    with l show ?thesis by simp
  qed
  have C: "\<forall>nm. status_writes nm (history \<sigma>') \<in> allowed_writes" using c' by simp
  have D: "\<forall>nm. added_count nm (history \<sigma>') \<le> 1" using d' by simp
  have E: "\<forall>nm. CompletedAdd nm \<in> set (history \<sigma>') \<longrightarrow> status_writes nm (history \<sigma>') \<noteq> []"
    using e' by simp
  have F: "\<forall>nm. executions nm (history \<sigma>') \<le> 1" using f' by simp
  have G: "\<forall>nm. status_writes nm (history \<sigma>') = [] \<longrightarrow> executions nm (history \<sigma>') = 0"
    using g' by simp
  have K: "\<forall>nm. status_writes nm (history \<sigma>') = [Failed] \<longrightarrow>
         on_error = ''continue'' \<and> executions nm (history \<sigma>') = 0 \<and>
         (\<exists>j \<in> set (dict_values (jobs \<sigma>')). name j = nm \<and>
            job_kind_of (runner_type j) (stage j) = Inl (CannotDetermineJobType (stage j)))"
    using k' by (intro allI impI)
  have L: "\<forall>nm. status_writes nm (history \<sigma>') = [Running] \<longrightarrow> (\<exists>e. r = Some e \<and> \<not> is_Exception e)"
    using l' by (intro allI impI)
  from a' b' C D E F G K L show ?thesis unfolding consistent_def by (intro conjI)
qed

lemma jobs_dict_subset: "(k, j) \<in> set (jobs_dict js) \<Longrightarrow> j \<in> set js"
proof -
  have "(k, j) \<in> set (foldl (\<lambda>d j. AList.update (name j) j d) d js) \<Longrightarrow>
          (k, j) \<in> set d \<or> j \<in> set js" for d
  proof (induction js arbitrary: d)
    case Nil
    then show ?case by simp
  next
    case (Cons a js)
    from Cons.IH [of "AList.update (name a) a d"] Cons.prems
    have "(k, j) \<in> set (AList.update (name a) a d) \<or> j \<in> set js" by simp
    then show ?case by (auto dest: in_set_update)
  qed
  from this [of "[]"] show "(k, j) \<in> set (jobs_dict js) \<Longrightarrow> j \<in> set js"
    by (simp add: jobs_dict_def)
qed

lemma jobs_dict_names: "map name (dict_values (jobs_dict js)) = dict_keys (jobs_dict js)"
  by (auto simp: dict_values_def dict_keys_def dest: keyed_jobs_dict)

text \<open>The state in which the stage loop starts: the jobs just created, nothing done.\<close>

definition start_state :: "pipeline_config \<Rightarrow> 'c option \<Rightarrow> 'w \<Rightarrow> ('w, 'c) run_state" where
  "start_state cfg duckdb_con w = (initial_state duckdb_con w)\<lparr>jobs := jobs_dict (create_jobs cfg)\<rparr>"

lemma start_state_pending:
  "j \<in> set (dict_values (jobs (start_state cfg duckdb_con w))) \<Longrightarrow> status j = Pending"
  by (auto simp: start_state_def dict_values_def dest!: jobs_dict_subset create_jobs_pending)

lemma start_state_distinct: "distinct (job_names (start_state cfg duckdb_con w))"
  by (simp add: job_names_def start_state_def jobs_dict_names distinct_jobs_dict)

lemma start_state_simps [simp]:
  "history (start_state cfg duckdb_con w) = []" "completed_jobs (start_state cfg duckdb_con w) = {}"
  "world (start_state cfg duckdb_con w) = w"
  "jobs (start_state cfg duckdb_con w) = jobs_dict (create_jobs cfg)"
  by (simp_all add: start_state_def initial_state_def)

lemma initial_state_simps [simp]:
  "history (initial_state duckdb_con w) = []" "completed_jobs (initial_state duckdb_con w) = {}"
  "world (initial_state duckdb_con w) = w" "jobs (initial_state duckdb_con w) = []"
  "executor_duckdb_con (initial_state duckdb_con w) = duckdb_con"
  by (simp_all add: initial_state_def)

lemma pipeline_cases:
  "pipeline ex duckdb_con cfg w = (r, \<sigma>) \<Longrightarrow>
     (cfg_jobs cfg = [] \<and> r = None \<and> \<sigma> = initial_state duckdb_con w) \<or>
     (\<exists>e. JobDAG (create_jobs cfg) = Inl e \<and> r = Some e \<and> \<sigma> = start_state cfg duckdb_con w) \<or>
     (cfg_jobs cfg \<noteq> [] \<and> (\<exists>dag. JobDAG (create_jobs cfg) = Inr dag) \<and>
      run_stages ex (on_error_of cfg) (cfg_stages cfg) (start_state cfg duckdb_con w) = (r, \<sigma>))"
proof -
  assume p: "pipeline ex duckdb_con cfg w = (r, \<sigma>)"
  show ?thesis
  proof (cases "cfg_jobs cfg = []")
    case True
    with p show ?thesis by (simp add: pipeline_def)
  next
    case False
    show ?thesis
    proof (cases "JobDAG (create_jobs cfg)")
      case (Inl e)
      with False p show ?thesis by (simp add: pipeline_def start_state_def)
    next
      case (Inr dag)
      then have "dag_jobs dag = jobs_dict (create_jobs cfg)" by (rule JobDAG_jobs)
      with Inr False p show ?thesis by (simp add: pipeline_def start_state_def)
    qed
  qed
qed

lemma open_warehouse_both:
  "open_warehouse wh = Inr (db_engine, duckdb_con) \<Longrightarrow>
     (db_engine = None \<and> duckdb_con = None) \<or> (\<exists>e c. db_engine = Some e \<and> duckdb_con = Some c)"
  by (auto simp: open_warehouse_def split: option.splits sum.splits)

lemma open_warehouse_engine:
  "open_warehouse wh = Inr (db_engine, Some c) \<Longrightarrow> \<exists>e. db_engine = Some e"
  by (auto simp: open_warehouse_def split: option.splits sum.splits)

text \<open>
  The two ways through \<^verbatim>\<open>orchestrator\<close>: an exception before the \<^verbatim>\<open>try\<close>, or the
  \<^verbatim>\<open>try\<close> block followed by the \<^verbatim>\<open>finally\<close> block, which changes nothing of the
  jobs, the completed set and the history.
\<close>

definition same_run :: "('w, 'c) run_state \<Rightarrow> ('w, 'c) run_state \<Rightarrow> bool" where
  "same_run \<sigma> \<sigma>' \<longleftrightarrow>
     jobs \<sigma>' = jobs \<sigma> \<and> completed_jobs \<sigma>' = completed_jobs \<sigma> \<and> history \<sigma>' = history \<sigma> \<and>
     world \<sigma>' = world \<sigma> \<and> executor_duckdb_con \<sigma>' = executor_duckdb_con \<sigma>"

lemma orchestrator_result:
  "(\<exists>e. open_warehouse wh = Inl e \<and> raised (orchestrator ex wh cfg w) = Some e \<and>
        final (orchestrator ex wh cfg w) = initial_state (connected wh) w \<and>
        cleanup_taken (orchestrator ex wh cfg w) = None) \<or>
   (\<exists>db_engine duckdb_con. open_warehouse wh = Inr (db_engine, duckdb_con) \<and>
        raised (orchestrator ex wh cfg w) = fst (pipeline ex duckdb_con cfg w) \<and>
        same_run (snd (pipeline ex duckdb_con cfg w)) (final (orchestrator ex wh cfg w)) \<and>
        cleanup_taken (orchestrator ex wh cfg w) = Some (cleanup db_engine duckdb_con) \<and>
        connections (final (orchestrator ex wh cfg w)) =
          connections (snd (pipeline ex duckdb_con cfg w)) @
            (case duckdb_con of None \<Rightarrow> [] | Some c \<Rightarrow> [EngineClosed c]))"
proof (cases "open_warehouse wh")
  case (Inl e)
  then show ?thesis by (simp add: orchestrator_def)
next
  case (Inr p)
  obtain db_engine duckdb_con where p: "p = (db_engine, duckdb_con)" by (cases p)
  obtain r \<sigma> where pl: "pipeline ex duckdb_con cfg w = (r, \<sigma>)"
    by (cases "pipeline ex duckdb_con cfg w")
  from open_warehouse_both [of wh db_engine duckdb_con] Inr p
  consider "db_engine = None" "duckdb_con = None"
    | e c where "db_engine = Some e" "duckdb_con = Some c" by auto
  then have "raised (orchestrator ex wh cfg w) = r \<and>
        same_run \<sigma> (final (orchestrator ex wh cfg w)) \<and>
        cleanup_taken (orchestrator ex wh cfg w) = Some (cleanup db_engine duckdb_con) \<and>
        connections (final (orchestrator ex wh cfg w)) =
          connections \<sigma> @ (case duckdb_con of None \<Rightarrow> [] | Some c \<Rightarrow> [EngineClosed c])"
    using pl Inr p by cases (simp_all add: orchestrator_def same_run_def)
  with Inr p pl show ?thesis by (intro disjI2 exI [of _ db_engine] exI [of _ duckdb_con]) simp
qed

lemma consistent_same:
  "same_run \<sigma> \<sigma>' \<Longrightarrow> consistent on_error r \<sigma> \<Longrightarrow> consistent on_error r \<sigma>'"
  by (simp add: same_run_def consistent_def)

lemma consistent_initial: "consistent on_error r (initial_state duckdb_con w)"
  by (simp add: consistent_def dict_values_def allowed_writes_def added_count_def executions_def)

lemma consistent_start: "consistent on_error r (start_state cfg duckdb_con w)"
  using start_state_pending [of _ cfg duckdb_con w]
  by (simp add: consistent_def allowed_writes_def added_count_def executions_def)

lemma consistent_pipeline:
  "pipeline ex duckdb_con cfg w = (r, \<sigma>) \<Longrightarrow> consistent (on_error_of cfg) r \<sigma>"
proof -
  assume p: "pipeline ex duckdb_con cfg w = (r, \<sigma>)"
  have "consistent (on_error_of cfg) r' \<sigma>'"
    if "run_stages ex (on_error_of cfg) (cfg_stages cfg) (start_state cfg duckdb_con w) = (r', \<sigma>')"
    for r' \<sigma>'
    using _ consistent_start start_state_distinct that
    by (rule run_stages_lift [where I = "consistent (on_error_of cfg)"]) (rule consistent_step)
  with pipeline_cases [OF p] consistent_initial consistent_start show ?thesis by auto
qed

lemma consistent_final:
  "consistent (on_error_of cfg) (raised (orchestrator ex wh cfg w)) (final (orchestrator ex wh cfg w))"
proof -
  from orchestrator_result [of wh ex cfg w] consider
      e where "raised (orchestrator ex wh cfg w) = Some e"
        "final (orchestrator ex wh cfg w) = initial_state (connected wh) w"
    | duckdb_con where
        "raised (orchestrator ex wh cfg w) = fst (pipeline ex duckdb_con cfg w)"
        "same_run (snd (pipeline ex duckdb_con cfg w)) (final (orchestrator ex wh cfg w))"
    by auto
  then show ?thesis
  proof cases
    case 1
    then show ?thesis by (simp add: consistent_initial)
  next
    case 2
    have "consistent (on_error_of cfg) (fst (pipeline ex duckdb_con cfg w))
            (snd (pipeline ex duckdb_con cfg w))"
      by (rule consistent_pipeline) simp
    with 2 show ?thesis by (simp add: consistent_same)
  qed
qed

section \<open>Properties of the orchestrator\<close>

lemma finally_closes_driver_connection:
  assumes "open_warehouse wh = Inr (db_engine, Some c)"
  shows "connections (final (orchestrator ex wh cfg w))
           = connections (snd (pipeline ex (Some c) cfg w)) @ [EngineClosed c] \<and>
         raised (orchestrator ex wh cfg w) = fst (pipeline ex (Some c) cfg w)"
  using orchestrator_result [of wh ex cfg w] assms by auto

text \<open>
  C9: the claim holds of the connection object that the driver holds, and fails of the
  connection of the run. The \<^verbatim>\<open>finally\<close> block calls \<^verbatim>\<open>db_engine.close\<close> once, on the
  object that \<^verbatim>\<open>db_engine.connect\<close> returned. When a transform job runs the dbt runner,
  that object was closed by the runner already, and the connection that the runner
  opened after it, which the executor holds from then on, is still open when
  \<^verbatim>\<open>orchestrator\<close> returns. And when the value of \<^verbatim>\<open>schemas\<close> cannot be iterated, the
  exception leaves \<^verbatim>\<open>orchestrator\<close> between \<^verbatim>\<open>db_engine.connect\<close> and the \<^verbatim>\<open>try\<close>:
  the \<^verbatim>\<open>finally\<close> block does not run and the connection stays open.
\<close>

theorem C9_reopened_connection_left_open:
  "raised (orchestrator dbt_executor (Some example_warehouse) (example_config ''stop'') 0) = None \<and>
   connections (final (orchestrator dbt_executor (Some example_warehouse) (example_config ''stop'') 0))
     = [Connected 42, Closed 42, Connected 43, EngineClosed 42] \<and>
   executor_duckdb_con
     (final (orchestrator dbt_executor (Some example_warehouse) (example_config ''stop'') 0)) = Some 43 \<and>
   open_connections
     (connections (final (orchestrator dbt_executor (Some example_warehouse) (example_config ''stop'') 0)))
     [] = [43] \<and>
   close_calls 42
     (connections (final (orchestrator dbt_executor (Some example_warehouse) (example_config ''stop'') 0)))
     = 2 \<and>
   close_calls 43
     (connections (final (orchestrator dbt_executor (Some example_warehouse) (example_config ''stop'') 0)))
     = 0 \<and>
   raised (orchestrator dbt_executor (Some unlisted_warehouse) (example_config ''stop'') 0)
     = Some (TypeError ''object is not iterable'') \<and>
   cleanup_taken (orchestrator dbt_executor (Some unlisted_warehouse) (example_config ''stop'') 0)
     = None \<and>
   open_connections
     (connections (final (orchestrator dbt_executor (Some unlisted_warehouse) (example_config ''stop'') 0)))
     [] = [42]"
  by code_simp



text \<open>
  C4: building the graph raises exactly when some job of the job dictionary has a
  \<^verbatim>\<open>depends_on\<close> entry that is not a key of the dictionary, and the exception names that
  job and that entry; when all entries are keys the construction succeeds. In
  \<^verbatim>\<open>orchestrator\<close> the failure leaves the \<^verbatim>\<open>try\<close> block before any job has run: nothing
  was written to a status or to the completed set, and the executor was not called.
\<close>

theorem C4_unknown_dependency:
  "((\<exists>e. JobDAG js = Inl e) \<longleftrightarrow>
      (\<exists>j \<in> set (dict_values (jobs_dict js)). \<exists>dep \<in> set (depends_on j).
          dep \<notin> set (dict_keys (jobs_dict js)))) \<and>
   (\<forall>e. JobDAG js = Inl e \<longrightarrow>
      (\<exists>j \<in> set (dict_values (jobs_dict js)). \<exists>dep \<in> set (depends_on j).
          dep \<notin> set (dict_keys (jobs_dict js)) \<and> e = UnknownDependency (name j) dep)) \<and>
   (\<forall>e. cfg_jobs cfg \<noteq> [] \<longrightarrow> JobDAG (create_jobs cfg) = Inl e \<longrightarrow>
      pipeline ex duckdb_con cfg w
        = (Some e, (initial_state duckdb_con w)\<lparr>jobs := jobs_dict (create_jobs cfg)\<rparr>) \<and>
      history (snd (pipeline ex duckdb_con cfg w)) = [] \<and>
      world (snd (pipeline ex duckdb_con cfg w)) = w)"
proof (intro conjI allI impI)
  show "(\<exists>e. JobDAG js = Inl e) \<longleftrightarrow>
      (\<exists>j \<in> set (dict_values (jobs_dict js)). \<exists>dep \<in> set (depends_on j).
          dep \<notin> set (dict_keys (jobs_dict js)))"
    by (rule JobDAG_fails)
next
  fix e assume "JobDAG js = Inl e"
  then show "\<exists>j \<in> set (dict_values (jobs_dict js)). \<exists>dep \<in> set (depends_on j).
          dep \<notin> set (dict_keys (jobs_dict js)) \<and> e = UnknownDependency (name j) dep"
    by (rule JobDAG_error)
next
  fix e assume a: "cfg_jobs cfg \<noteq> []" "JobDAG (create_jobs cfg) = Inl e"
  then show p: "pipeline ex duckdb_con cfg w
        = (Some e, (initial_state duckdb_con w)\<lparr>jobs := jobs_dict (create_jobs cfg)\<rparr>)"
    by (simp add: pipeline_def)
  show "history (snd (pipeline ex duckdb_con cfg w)) = []" unfolding p by simp
  show "world (snd (pipeline ex duckdb_con cfg w)) = w" unfolding p by simp
qed

theorem C4_unknown_dependency_witness:
  "JobDAG (create_jobs broken_config) = Inl (UnknownDependency ''e'' ''ghost'') \<and>
   raised (orchestrator example_executor (Some example_warehouse) broken_config 0)
      = Some (UnknownDependency ''e'' ''ghost'') \<and>
   history (snd (pipeline example_executor (Some 42) broken_config 0)) = [] \<and>
   (\<exists>dag. JobDAG (create_jobs quiet_config) = Inr dag)"
proof -
  have a: "JobDAG (create_jobs broken_config) = Inl (UnknownDependency ''e'' ''ghost'')"
    by (simp add: JobDAG_def build_graph_def broken_config_def create_jobs_def Job_def
        jobs_dict_def dict_values_def dict_keys_def)
  have b: "raised (orchestrator example_executor (Some example_warehouse) broken_config 0)
      = Some (UnknownDependency ''e'' ''ghost'')"
    by code_simp
  have c: "cfg_jobs broken_config \<noteq> []" by (simp add: broken_config_def)
  have d: "\<not> (\<exists>j \<in> set (dict_values (jobs_dict (create_jobs quiet_config))).
            \<exists>dep \<in> set (depends_on j). dep \<notin> set (dict_keys (jobs_dict (create_jobs quiet_config))))"
    by (simp add: quiet_config_def create_jobs_def Job_def jobs_dict_def dict_values_def)
  have e: "\<exists>dag. JobDAG (create_jobs quiet_config) = Inr dag"
    using C4_unknown_dependency [of "create_jobs quiet_config" broken_config example_executor "Some 42" 0,
        THEN conjunct1] d
    by (cases "JobDAG (create_jobs quiet_config)") auto
  have f: "history (snd (pipeline example_executor (Some 42) broken_config 0)) = []"
    using C4_unknown_dependency [of "create_jobs broken_config" broken_config example_executor "Some 42" 0,
        THEN conjunct2, THEN conjunct2] a c
    by blast
  from a b e f show ?thesis by simp
qed

lemma allowed_transitions:
  "ws \<in> allowed_writes \<Longrightarrow>
     remdups_adj (Pending # ws)
       \<in> {[Pending], [Pending, Running], [Pending, Running, Success], [Pending, Running, Failed],
          [Pending, Failed]} \<and>
     length (filter (\<lambda>s. s = Running) ws) \<le> 1 \<and>
     (remdups_adj (Pending # ws) = [Pending, Failed] \<longrightarrow> ws = [Failed]) \<and>
     (remdups_adj (Pending # ws) = [Pending, Running] \<longrightarrow> ws = [Running])"
  by (auto simp: allowed_writes_def)

text \<open>
  C8 (as amended): in every run of \<^verbatim>\<open>orchestrator\<close> the status of a job changes only along
  pending, running, success, or pending, running, failed; or from pending to failed
  directly, which happens only to a job whose type cannot be determined, under the
  continue policy, and without the job being executed; and a job stays at running only
  when an exception that is not of class \<^verbatim>\<open>Exception\<close> leaves the run. The status at
  the end is the last one written. No job is executed more than once, nor set to running
  more than once. The completed set is exactly the set of the names added to it, every
  name is added at most once, and no step of the run takes a name out of it.
\<close>

theorem C8_status_and_completed:
  "(\<forall>nm. remdups_adj (Pending # status_writes nm (history (final (orchestrator ex wh cfg w))))
           \<in> {[Pending], [Pending, Running], [Pending, Running, Success],
              [Pending, Running, Failed], [Pending, Failed]}) \<and>
   (\<forall>nm. remdups_adj (Pending # status_writes nm (history (final (orchestrator ex wh cfg w))))
            = [Pending, Failed] \<longrightarrow>
          on_error_of cfg = ''continue'' \<and>
          executions nm (history (final (orchestrator ex wh cfg w))) = 0 \<and>
          (\<exists>j \<in> set (dict_values (jobs (final (orchestrator ex wh cfg w)))). name j = nm \<and>
             job_kind_of (runner_type j) (stage j) = Inl (CannotDetermineJobType (stage j)))) \<and>
   (\<forall>nm. remdups_adj (Pending # status_writes nm (history (final (orchestrator ex wh cfg w))))
            = [Pending, Running] \<longrightarrow>
          (\<exists>e. raised (orchestrator ex wh cfg w) = Some e \<and> \<not> is_Exception e)) \<and>
   (\<forall>j \<in> set (dict_values (jobs (final (orchestrator ex wh cfg w)))).
       status j = last (Pending # status_writes (name j) (history (final (orchestrator ex wh cfg w))))) \<and>
   (\<forall>nm. executions nm (history (final (orchestrator ex wh cfg w))) \<le> 1) \<and>
   (\<forall>nm. length (filter (\<lambda>s. s = Running)
                  (status_writes nm (history (final (orchestrator ex wh cfg w))))) \<le> 1) \<and>
   (\<forall>nm. added_count nm (history (final (orchestrator ex wh cfg w))) \<le> 1) \<and>
   completed_jobs (final (orchestrator ex wh cfg w))
     = {nm. CompletedAdd nm \<in> set (history (final (orchestrator ex wh cfg w)))} \<and>
   (\<forall>stg j \<sigma> r \<sigma>'. run_job ex on_error stg j \<sigma> = (r, \<sigma>') \<longrightarrow>
       completed_jobs \<sigma> \<subseteq> completed_jobs \<sigma>' \<and> prefix (history \<sigma>) (history \<sigma>')) \<and>
   (\<forall>stgs \<sigma> r \<sigma>'. run_stages ex on_error stgs \<sigma> = (r, \<sigma>') \<longrightarrow>
       completed_jobs \<sigma> \<subseteq> completed_jobs \<sigma>' \<and> prefix (history \<sigma>) (history \<sigma>'))"
proof -
  let ?R = "orchestrator ex wh cfg w"
  let ?\<sigma> = "final ?R"
  let ?H = "history ?\<sigma>"
  have con: "consistent (on_error_of cfg) (raised ?R) ?\<sigma>" by (rule consistent_final)
  from con have allowed: "\<forall>nm. status_writes nm ?H \<in> allowed_writes"
    unfolding consistent_def by (elim conjE)
  from con have fl: "\<forall>nm. status_writes nm ?H = [Failed] \<longrightarrow>
         on_error_of cfg = ''continue'' \<and> executions nm ?H = 0 \<and>
         (\<exists>j \<in> set (dict_values (jobs ?\<sigma>)). name j = nm \<and>
            job_kind_of (runner_type j) (stage j) = Inl (CannotDetermineJobType (stage j)))"
    unfolding consistent_def by (elim conjE)
  from con have rn: "\<forall>nm. status_writes nm ?H = [Running] \<longrightarrow>
         (\<exists>e. raised ?R = Some e \<and> \<not> is_Exception e)"
    unfolding consistent_def by (elim conjE)
  have 1: "\<forall>nm. remdups_adj (Pending # status_writes nm ?H)
           \<in> {[Pending], [Pending, Running], [Pending, Running, Success],
              [Pending, Running, Failed], [Pending, Failed]}"
    using allowed_transitions allowed by blast
  have 2: "\<forall>nm. remdups_adj (Pending # status_writes nm ?H) = [Pending, Failed] \<longrightarrow>
          on_error_of cfg = ''continue'' \<and> executions nm ?H = 0 \<and>
          (\<exists>j \<in> set (dict_values (jobs ?\<sigma>)). name j = nm \<and>
             job_kind_of (runner_type j) (stage j) = Inl (CannotDetermineJobType (stage j)))"
  proof (intro allI impI)
    fix nm assume "remdups_adj (Pending # status_writes nm ?H) = [Pending, Failed]"
    moreover from allowed have "status_writes nm ?H \<in> allowed_writes" by simp
    ultimately have "status_writes nm ?H = [Failed]" using allowed_transitions by blast
    with fl show "on_error_of cfg = ''continue'' \<and> executions nm ?H = 0 \<and>
          (\<exists>j \<in> set (dict_values (jobs ?\<sigma>)). name j = nm \<and>
             job_kind_of (runner_type j) (stage j) = Inl (CannotDetermineJobType (stage j)))"
      by simp
  qed
  have 3: "\<forall>nm. remdups_adj (Pending # status_writes nm ?H) = [Pending, Running] \<longrightarrow>
          (\<exists>e. raised ?R = Some e \<and> \<not> is_Exception e)"
  proof (intro allI impI)
    fix nm assume "remdups_adj (Pending # status_writes nm ?H) = [Pending, Running]"
    moreover from allowed have "status_writes nm ?H \<in> allowed_writes" by simp
    ultimately have "status_writes nm ?H = [Running]" using allowed_transitions by blast
    with rn show "\<exists>e. raised ?R = Some e \<and> \<not> is_Exception e" by blast
  qed
  have 4: "\<forall>j \<in> set (dict_values (jobs ?\<sigma>)).
       status j = last (Pending # status_writes (name j) ?H)"
    using con unfolding consistent_def by (elim conjE)
  have 5: "\<forall>nm. executions nm ?H \<le> 1"
    using con unfolding consistent_def by (elim conjE)
  have 6: "\<forall>nm. length (filter (\<lambda>s. s = Running) (status_writes nm ?H)) \<le> 1"
    using allowed_transitions allowed by blast
  have 7: "\<forall>nm. added_count nm ?H \<le> 1"
    using con unfolding consistent_def by (elim conjE)
  have 8: "completed_jobs ?\<sigma> = {nm. CompletedAdd nm \<in> set ?H}"
    using con unfolding consistent_def by (elim conjE)
  have 9: "\<forall>stg j \<sigma> r \<sigma>'. run_job ex on_error stg j \<sigma> = (r, \<sigma>') \<longrightarrow>
       completed_jobs \<sigma> \<subseteq> completed_jobs \<sigma>' \<and> prefix (history \<sigma>) (history \<sigma>')"
    using run_job_extends [of ex on_error] by (simp add: extends_def)
  have 10: "\<forall>stgs \<sigma> r \<sigma>'. run_stages ex on_error stgs \<sigma> = (r, \<sigma>') \<longrightarrow>
       completed_jobs \<sigma> \<subseteq> completed_jobs \<sigma>' \<and> prefix (history \<sigma>) (history \<sigma>')"
    using run_stages_extends [of ex on_error] by (simp add: extends_def)
  from 1 2 3 4 5 6 7 8 9 10 show ?thesis by (intro conjI)
qed

theorem C8_status_and_completed_witness:
  "status_writes ''t''
     (history (final (orchestrator example_executor (Some example_warehouse)
        (example_config ''continue'') 0))) = [Running, Failed, Failed] \<and>
   remdups_adj (Pending # status_writes ''t''
     (history (final (orchestrator example_executor (Some example_warehouse)
        (example_config ''continue'') 0))))
     \<in> {[Pending], [Pending, Running], [Pending, Running, Success], [Pending, Running, Failed],
        [Pending, Failed]} \<and>
   executions ''t''
     (history (final (orchestrator example_executor (Some example_warehouse)
        (example_config ''continue'') 0))) \<le> 1 \<and>
   added_count ''t''
     (history (final (orchestrator example_executor (Some example_warehouse)
        (example_config ''continue'') 0))) \<le> 1 \<and>
   completed_jobs (final (orchestrator example_executor (Some example_warehouse)
        (example_config ''continue'') 0)) = {''e'', ''t'', ''l''} \<and>
   status_writes ''purge''
     (history (final (orchestrator example_executor (Some example_warehouse)
        (undetermined_config ''continue'') 0))) = [Failed] \<and>
   on_error_of (undetermined_config ''continue'') = ''continue'' \<and>
   executions ''purge''
     (history (final (orchestrator example_executor (Some example_warehouse)
        (undetermined_config ''continue'') 0))) = 0 \<and>
   status_writes ''t''
     (history (final (orchestrator interrupted_executor (Some example_warehouse)
        (example_config ''continue'') 0))) = [Running] \<and>
   (\<exists>e. raised (orchestrator interrupted_executor (Some example_warehouse)
        (example_config ''continue'') 0) = Some e \<and> \<not> is_Exception e)"
proof -
  let ?R = "orchestrator example_executor (Some example_warehouse) (example_config ''continue'') 0"
  let ?U = "orchestrator example_executor (Some example_warehouse) (undetermined_config ''continue'') 0"
  let ?I = "orchestrator interrupted_executor (Some example_warehouse) (example_config ''continue'') 0"
  have a: "status_writes ''t'' (history (final ?R)) = [Running, Failed, Failed]"
    by code_simp
  have b: "completed_jobs (final ?R) = {''e'', ''t'', ''l''}"
    by code_simp
  have u: "status_writes ''purge'' (history (final ?U)) = [Failed]"
    by code_simp
  have i: "status_writes ''t'' (history (final ?I)) = [Running]"
    by code_simp
  note inst = C8_status_and_completed [of example_executor "Some example_warehouse"
      "example_config ''continue''" 0 "''continue''"]
  note instU = C8_status_and_completed [of example_executor "Some example_warehouse"
      "undetermined_config ''continue''" 0 "''continue''"]
  note instI = C8_status_and_completed [of interrupted_executor "Some example_warehouse"
      "example_config ''continue''" 0 "''continue''"]
  from inst have c: "remdups_adj (Pending # status_writes ''t'' (history (final ?R)))
     \<in> {[Pending], [Pending, Running], [Pending, Running, Success], [Pending, Running, Failed],
        [Pending, Failed]}"
    by (elim conjE allE [of _ "''t''"])
  from inst have d: "executions ''t'' (history (final ?R)) \<le> 1"
    by (elim conjE allE [of _ "''t''"])
  from inst have e: "added_count ''t'' (history (final ?R)) \<le> 1"
    by (elim conjE allE [of _ "''t''"])
  from instU have "remdups_adj (Pending # status_writes ''purge'' (history (final ?U)))
            = [Pending, Failed] \<longrightarrow>
          on_error_of (undetermined_config ''continue'') = ''continue'' \<and>
          executions ''purge'' (history (final ?U)) = 0 \<and>
          (\<exists>j \<in> set (dict_values (jobs (final ?U))). name j = ''purge'' \<and>
             job_kind_of (runner_type j) (stage j) = Inl (CannotDetermineJobType (stage j)))"
    by (elim conjE allE [of _ "''purge''"])
  with u have f: "on_error_of (undetermined_config ''continue'') = ''continue''"
    and g: "executions ''purge'' (history (final ?U)) = 0" by simp_all
  from instI have "remdups_adj (Pending # status_writes ''t'' (history (final ?I)))
            = [Pending, Running] \<longrightarrow> (\<exists>e. raised ?I = Some e \<and> \<not> is_Exception e)"
    by (elim conjE allE [of _ "''t''"])
  with i have h: "\<exists>e. raised ?I = Some e \<and> \<not> is_Exception e" by simp
  from a c d e b u f g i h show ?thesis by (intro conjI)
qed

text \<open>
  C8 as stated fails: under the continue policy a job whose type cannot be determined
  goes from pending to failed and is never running.
\<close>

theorem C8_failed_without_running_counterexample:
  "job_kind_of [] ''cleanup'' = Inl (CannotDetermineJobType ''cleanup'') \<and>
   status_writes ''purge''
     (history (final (orchestrator example_executor (None :: (string, nat) warehouse option)
        (undetermined_config ''continue'') 0))) = [Failed] \<and>
   map status (dict_values (jobs (final (orchestrator example_executor
        (None :: (string, nat) warehouse option) (undetermined_config ''continue'') 0)))) = [Failed]"
  by code_simp

end
